theory Spec2Isabelle
  imports Complex_Main
begin

section \<open>Synthetic transaction feed generator (scripts/generate\_transactions.py)\<close>

text \<open>
  A shallow embedding of the generator. Modelling decisions:
  \<^item> \<open>Decimal\<close> values are exact rationals (\<open>rat\<close>): every value the script computes
    has far fewer than the 28 significant digits of the default decimal context, where
    \<open>Decimal\<close> arithmetic is exact.
  \<^item> The module-level generator of \<open>random\<close> is a tape of raw draws (\<open>nat \<Rightarrow> nat\<close>);
    each library primitive consumes one draw and reduces it to its range. The tape is a
    field of the builder state, since every handler reads and advances it.
  \<^item> The floating-point weights of \<open>next_row\<close> and the value of \<open>random.random()\<close>
    are exact rationals.
  \<^item> The status strings and the action names are datatypes.
  \<^item> Exceptions are values of the type \<open>error\<close>; a function that can raise returns
    \<open>error + 'a\<close>.
\<close>

subsection \<open>Data model\<close>

datatype status = Posted | Disputed | Resolved | Chargeback

record DepositRecord =
  client :: nat
  amount :: rat
  status :: status

record ClientAccount =
  available :: rat
  held :: rat
  locked :: bool

definition new_account :: ClientAccount where
  "new_account = \<lparr>available = 0, held = 0, locked = False\<rparr>"

datatype kind = Deposit | Withdrawal | Dispute | Resolve | ChargebackRow

datatype error =
    ValueError_max_amount
  | ValueError_min_amount
  | ValueError_max_exceed_min
  | ValueError_clients
  | ValueError_empty_range
  | ValueError_weights
  | ValueError_remove
  | IndexError
  | KeyError
  | RuntimeError_insufficient_funds
  | RuntimeError_no_unlocked
  | RecursionError

type_synonym row = "kind \<times> nat \<times> nat \<times> string"

type_synonym rng = "nat \<Rightarrow> nat"

record Args =
  arg_rows :: int
  arg_clients :: int
  arg_min_amount :: rat
  arg_max_amount :: rat
  arg_seed :: int

record FeedBuilder =
  min_amount :: rat
  max_amount :: rat
  tx_counter :: nat
  accounts :: "(nat \<times> ClientAccount) list"
  deposit_records :: "nat \<rightharpoonup> DepositRecord"
  posted_txs :: "nat list"
  disputed_txs :: "nat list"
  rng :: rng

subsection \<open>The random module\<close>

definition draw :: "rng \<Rightarrow> nat \<times> rng" where
  "draw g = (g 0, \<lambda>i. g (Suc i))"

definition randbelow :: "nat \<Rightarrow> rng \<Rightarrow> nat \<times> rng" where
  "randbelow n g = (case draw g of (d, g') \<Rightarrow> (d mod n, g'))"

text \<open>\<open>random.random()\<close>: a multiple of \<open>2\<^sup>-\<^sup>5\<^sup>3\<close> in \<open>[0, 1)\<close>.\<close>

definition random_unit :: "rng \<Rightarrow> rat \<times> rng" where
  "random_unit g = (case draw g of (d, g') \<Rightarrow> (of_nat (d mod 2 ^ 53) / 2 ^ 53, g'))"

text \<open>\<open>random.randint(a, b)\<close> raises ValueError on an empty range.\<close>

definition randint :: "int \<Rightarrow> int \<Rightarrow> rng \<Rightarrow> error + (int \<times> rng)" where
  "randint a b g =
     (if b < a then Inl ValueError_empty_range
      else case randbelow (nat (b - a + 1)) g of (k, g') \<Rightarrow> Inr (a + int k, g'))"

text \<open>\<open>random.choice(seq)\<close> raises IndexError on an empty sequence.\<close>

definition choice :: "'a list \<Rightarrow> rng \<Rightarrow> error + ('a \<times> rng)" where
  "choice xs g =
     (if xs = [] then Inl IndexError
      else case randbelow (length xs) g of (k, g') \<Rightarrow> Inr (xs ! k, g'))"

text \<open>
  \<open>random.shuffle(x)\<close>: for \<open>i\<close> from \<open>len(x) - 1\<close> down to \<open>1\<close>, draw \<open>j\<close> below
  \<open>i + 1\<close> and swap \<open>x[i]\<close> with \<open>x[j]\<close>.
\<close>

fun shuffle_loop :: "nat \<Rightarrow> 'a list \<Rightarrow> rng \<Rightarrow> 'a list \<times> rng" where
  "shuffle_loop 0 xs g = (xs, g)"
| "shuffle_loop (Suc k) xs g =
     (case randbelow (Suc (Suc k)) g of
        (j, g') \<Rightarrow> shuffle_loop k (xs[Suc k := xs ! j, j := xs ! Suc k]) g')"

definition shuffle :: "'a list \<Rightarrow> rng \<Rightarrow> 'a list \<times> rng" where
  "shuffle xs g = shuffle_loop (length xs - 1) xs g"

text \<open>
  \<open>random.choices(population, weights=weights, k=1)[0]\<close>: the cumulative weights are
  searched (\<open>bisect\<close> with \<open>hi = n - 1\<close>) for \<open>random() * total\<close>; a total \<open>\<le> 0\<close>
  raises ValueError.
\<close>

fun bisect_cum :: "rat list \<Rightarrow> rat \<Rightarrow> rat \<Rightarrow> nat" where
  "bisect_cum [] acc x = 0"
| "bisect_cum [w] acc x = 0"
| "bisect_cum (w # ws) acc x =
     (if x < acc + w then 0 else Suc (bisect_cum ws (acc + w) x))"

definition choices :: "'a list \<Rightarrow> rat list \<Rightarrow> rng \<Rightarrow> error + ('a \<times> rng)" where
  "choices population weights g =
     (let total = sum_list weights in
      if total \<le> 0 then Inl ValueError_weights
      else case random_unit g of
             (r, g') \<Rightarrow> Inr (population ! bisect_cum weights 0 (r * total), g'))"

subsection \<open>Amounts\<close>

definition BPS :: rat where
  "BPS = 1 / 10000"

definition round_half_even :: "rat \<Rightarrow> int" where
  "round_half_even x =
     (let n = \<lfloor>x\<rfloor>; f = x - of_int n
      in if f < 1 / 2 then n else if 1 / 2 < f then n + 1
         else if even n then n else n + 1)"

definition round_half_up :: "rat \<Rightarrow> int" where
  "round_half_up x = (if 0 \<le> x then \<lfloor>x + 1 / 2\<rfloor> else - \<lfloor>- x + 1 / 2\<rfloor>)"

text \<open>\<open>x.quantize(BPS, rounding=...)\<close>; the default context rounds half-even.\<close>

definition quantize :: "(rat \<Rightarrow> int) \<Rightarrow> rat \<Rightarrow> rat" where
  "quantize rounding x = of_int (rounding (x / BPS)) * BPS"

text \<open>\<open>int(d)\<close> truncates a decimal toward zero.\<close>

definition int_of_decimal :: "rat \<Rightarrow> int" where
  "int_of_decimal x = (if 0 \<le> x then \<lfloor>x\<rfloor> else \<lceil>x\<rceil>)"

definition decimal_from_range :: "rat \<Rightarrow> rat \<Rightarrow> rng \<Rightarrow> error + (rat \<times> rng)" where
  "decimal_from_range min_amt max_amt g =
     (if max_amt \<le> 0 then Inl ValueError_max_amount
      else
        let low = int_of_decimal (quantize round_half_even min_amt / BPS);
            high = int_of_decimal (quantize round_half_even max_amt / BPS);
            high = (if high < low then low else high)
        in case randint low high g of
             Inl e \<Rightarrow> Inl e
           | Inr (k, g') \<Rightarrow> Inr (quantize round_half_up (of_int k * BPS), g'))"

fun digits :: "nat \<Rightarrow> string" where
  "digits n =
     (if n < 10 then [''0123456789'' ! n]
      else digits (n div 10) @ [''0123456789'' ! (n mod 10)])"

declare digits.simps [simp del]

text \<open>\<open>f"{amount:.4f}"\<close>: four fractional digits, rounded half-even.\<close>

definition format_amount :: "rat \<Rightarrow> string" where
  "format_amount a =
     (let n = nat \<bar>round_half_even (a / BPS)\<bar>;
          f = n mod 10000
      in (if a < 0 then ''-'' else '''') @ digits (n div 10000) @ ''.''
         @ [''0123456789'' ! (f div 1000), ''0123456789'' ! (f div 100 mod 10),
            ''0123456789'' ! (f div 10 mod 10), ''0123456789'' ! (f mod 10)])"

subsection \<open>FeedBuilder\<close>

definition client_ids :: "int \<Rightarrow> rng \<Rightarrow> error + (nat list \<times> rng)" where
  "client_ids count g =
     (if \<not> (1 \<le> count \<and> count \<le> 65535) then Inl ValueError_clients
      else Inr (shuffle [1 ..< nat count + 1] g))"

text \<open>
  \<open>FeedBuilder.__init__\<close>. The argument \<open>g0\<close> is the state of the module-level
  generator when the builder is created; \<open>seed_fn\<close> is the library's
  \<open>random.seed\<close>, which replaces that state by one computed from the seed.
  The statements are taken in the order of the source: the client ids are
  shuffled while the accounts are built, and the call of \<open>random.seed\<close> is last.
\<close>

definition FeedBuilder_init :: "(int \<Rightarrow> rng) \<Rightarrow> Args \<Rightarrow> rng \<Rightarrow> error + FeedBuilder" where
  "FeedBuilder_init seed_fn args g0 =
     (if arg_min_amount args \<le> 0 then Inl ValueError_min_amount
      else if arg_max_amount args \<le> arg_min_amount args then Inl ValueError_max_exceed_min
      else case client_ids (arg_clients args) g0 of
             Inl e \<Rightarrow> Inl e
           | Inr (ids, g1) \<Rightarrow>
               Inr \<lparr>min_amount = arg_min_amount args,
                    max_amount = arg_max_amount args,
                    tx_counter = 1,
                    accounts = map (\<lambda>client_id. (client_id, new_account)) ids,
                    deposit_records = Map.empty,
                    posted_txs = [],
                    disputed_txs = [],
                    rng = seed_fn (arg_seed args)\<rparr>)"

definition unlocked_clients :: "FeedBuilder \<Rightarrow> nat list" where
  "unlocked_clients st = map fst (filter (\<lambda>(cid, account). \<not> locked account) (accounts st))"

definition funded_clients :: "FeedBuilder \<Rightarrow> nat list" where
  "funded_clients st =
     map fst (filter (\<lambda>(cid, account). \<not> locked account \<and> min_amount st \<le> available account)
                (accounts st))"

definition choose_client :: "bool \<Rightarrow> FeedBuilder \<Rightarrow> error + (nat option \<times> FeedBuilder)" where
  "choose_client require_funds st =
     (let pool = (if require_funds then funded_clients st else unlocked_clients st)
      in if pool = [] then Inr (None, st)
         else case choice pool (rng st) of
                Inl e \<Rightarrow> Inl e
              | Inr (cid, g) \<Rightarrow> Inr (Some cid, st\<lparr>rng := g\<rparr>))"

text \<open>
  An attribute assignment on the account object stored under \<open>cid\<close>: the dictionary
  keeps its keys and their order.
\<close>

definition set_account :: "nat \<Rightarrow> ClientAccount \<Rightarrow> (nat \<times> ClientAccount) list
    \<Rightarrow> (nat \<times> ClientAccount) list" where
  "set_account cid account accs = map (\<lambda>(k, v). if k = cid then (k, account) else (k, v)) accs"

definition random_deposit :: "nat \<Rightarrow> FeedBuilder \<Rightarrow> error + (row \<times> FeedBuilder)" where
  "random_deposit client_id st =
     (case decimal_from_range (min_amount st) (max_amount st) (rng st) of
        Inl e \<Rightarrow> Inl e
      | Inr (amt, g) \<Rightarrow>
          (case map_of (accounts st) client_id of
             None \<Rightarrow> Inl KeyError
           | Some account \<Rightarrow>
               let tx = tx_counter st in
               Inr ((Deposit, client_id, tx, format_amount amt),
                    st\<lparr>rng := g,
                       accounts := set_account client_id
                          (account\<lparr>available := available account + amt\<rparr>) (accounts st),
                       tx_counter := tx + 1,
                       deposit_records := (deposit_records st)
                          (tx \<mapsto> \<lparr>client = client_id, amount = amt, status = Posted\<rparr>),
                       posted_txs := posted_txs st @ [tx]\<rparr>)))"

definition random_withdrawal :: "nat \<Rightarrow> FeedBuilder \<Rightarrow> error + (row \<times> FeedBuilder)" where
  "random_withdrawal client_id st =
     (case map_of (accounts st) client_id of
        None \<Rightarrow> Inl KeyError
      | Some account \<Rightarrow>
          let max_amt = min (available account) (max_amount st) in
          if max_amt < min_amount st then Inl RuntimeError_insufficient_funds
          else case decimal_from_range (min_amount st) max_amt (rng st) of
                 Inl e \<Rightarrow> Inl e
               | Inr (amt, g) \<Rightarrow>
                   let tx = tx_counter st in
                   Inr ((Withdrawal, client_id, tx, format_amount amt),
                        st\<lparr>rng := g,
                           accounts := set_account client_id
                              (account\<lparr>available := available account - amt\<rparr>) (accounts st),
                           tx_counter := tx + 1\<rparr>))"

text \<open>
  The test \<open>record and account and not account.locked\<close> of \<open>_choose_tx\<close>; both
  lookups are \<open>dict.get\<close>, so a missing key gives \<open>None\<close>, not an exception.
\<close>

definition tx_eligible :: "FeedBuilder \<Rightarrow> nat \<Rightarrow> bool" where
  "tx_eligible st tx =
     (case deposit_records st tx of
        None \<Rightarrow> False
      | Some record \<Rightarrow>
          (case map_of (accounts st) (client record) of
             None \<Rightarrow> False
           | Some account \<Rightarrow> \<not> locked account))"

text \<open>
  \<open>_choose_tx(pool)\<close>. The pool is the builder's own list, which the loop shortens in
  place, so the function returns the pool as it leaves it together with the generator.
  The id removed is the one just drawn from the pool, so \<open>pool.remove\<close> cannot raise.
\<close>

function choose_tx :: "FeedBuilder \<Rightarrow> nat list \<Rightarrow> rng \<Rightarrow> error + (nat option \<times> nat list \<times> rng)" where
  "choose_tx st pool g =
     (if pool = [] then Inr (None, pool, g)
      else case choice pool g of
             Inl e \<Rightarrow> Inl e
           | Inr (tx, g') \<Rightarrow>
               if tx_eligible st tx then Inr (Some tx, pool, g')
               else choose_tx st (remove1 tx pool) g')"
  by pat_completeness auto
termination
proof (relation "measure (\<lambda>(st, pool, g). length pool)")
  show "wf (measure (\<lambda>(st, pool, g). length pool))" by simp
next
  fix st :: FeedBuilder and pool :: "nat list" and g :: rng and x2 x y
  assume "pool \<noteq> []" and c: "choice pool g = Inr x2" and x: "(x, y) = x2"
  from c x \<open>pool \<noteq> []\<close> have "x \<in> set pool"
    by (auto simp: choice_def randbelow_def split: prod.splits)
  then have "length (remove1 x pool) < length pool"
    by (simp add: length_remove1) (cases pool, auto)
  then show "((st, remove1 x pool, y), st, pool, g) \<in> measure (\<lambda>(st, pool, g). length pool)"
    by simp
qed

declare choose_tx.simps [simp del]

text \<open>\<open>list.remove(x)\<close> deletes the first occurrence and raises ValueError without one.\<close>

definition list_remove :: "nat \<Rightarrow> nat list \<Rightarrow> error + nat list" where
  "list_remove x xs = (if x \<in> set xs then Inr (remove1 x xs) else Inl ValueError_remove)"

definition dispute :: "FeedBuilder \<Rightarrow> error + (row option \<times> FeedBuilder)" where
  "dispute st =
     (case choose_tx st (posted_txs st) (rng st) of
        Inl e \<Rightarrow> Inl e
      | Inr (None, pool, g) \<Rightarrow> Inr (None, st\<lparr>posted_txs := pool, rng := g\<rparr>)
      | Inr (Some tx, pool, g) \<Rightarrow>
          (case list_remove tx pool of
             Inl e \<Rightarrow> Inl e
           | Inr posted \<Rightarrow>
               (case deposit_records st tx of
                  None \<Rightarrow> Inl KeyError
                | Some record \<Rightarrow>
                    (case map_of (accounts st) (client record) of
                       None \<Rightarrow> Inl KeyError
                     | Some account \<Rightarrow>
                         Inr (Some (Dispute, client record, tx, []),
                              st\<lparr>rng := g,
                                 posted_txs := posted,
                                 accounts := set_account (client record)
                                    (account\<lparr>available := available account - amount record,
                                             held := held account + amount record\<rparr>)
                                    (accounts st),
                                 deposit_records := (deposit_records st)
                                    (tx \<mapsto> record\<lparr>status := Disputed\<rparr>),
                                 disputed_txs := disputed_txs st @ [tx]\<rparr>)))))"

definition resolve :: "FeedBuilder \<Rightarrow> error + (row option \<times> FeedBuilder)" where
  "resolve st =
     (case choose_tx st (disputed_txs st) (rng st) of
        Inl e \<Rightarrow> Inl e
      | Inr (None, pool, g) \<Rightarrow> Inr (None, st\<lparr>disputed_txs := pool, rng := g\<rparr>)
      | Inr (Some tx, pool, g) \<Rightarrow>
          (case list_remove tx pool of
             Inl e \<Rightarrow> Inl e
           | Inr disputed \<Rightarrow>
               (case deposit_records st tx of
                  None \<Rightarrow> Inl KeyError
                | Some record \<Rightarrow>
                    (case map_of (accounts st) (client record) of
                       None \<Rightarrow> Inl KeyError
                     | Some account \<Rightarrow>
                         Inr (Some (Resolve, client record, tx, []),
                              st\<lparr>rng := g,
                                 disputed_txs := disputed,
                                 accounts := set_account (client record)
                                    (account\<lparr>held := held account - amount record,
                                             available := available account + amount record\<rparr>)
                                    (accounts st),
                                 deposit_records := (deposit_records st)
                                    (tx \<mapsto> record\<lparr>status := Resolved\<rparr>)\<rparr>)))))"

definition chargeback :: "FeedBuilder \<Rightarrow> error + (row option \<times> FeedBuilder)" where
  "chargeback st =
     (case choose_tx st (disputed_txs st) (rng st) of
        Inl e \<Rightarrow> Inl e
      | Inr (None, pool, g) \<Rightarrow> Inr (None, st\<lparr>disputed_txs := pool, rng := g\<rparr>)
      | Inr (Some tx, pool, g) \<Rightarrow>
          (case list_remove tx pool of
             Inl e \<Rightarrow> Inl e
           | Inr disputed \<Rightarrow>
               (case deposit_records st tx of
                  None \<Rightarrow> Inl KeyError
                | Some record \<Rightarrow>
                    (case map_of (accounts st) (client record) of
                       None \<Rightarrow> Inl KeyError
                     | Some account \<Rightarrow>
                         Inr (Some (ChargebackRow, client record, tx, []),
                              st\<lparr>rng := g,
                                 disputed_txs := disputed,
                                 accounts := set_account (client record)
                                    (account\<lparr>held := held account - amount record,
                                             locked := True\<rparr>)
                                    (accounts st),
                                 deposit_records := (deposit_records st)
                                    (tx \<mapsto> record\<lparr>status := Chargeback\<rparr>)\<rparr>)))))"

text \<open>
  The loop shared by \<open>_has_posted_for_unlocked\<close> and \<open>_has_disputed_for_unlocked\<close>:
  the record is fetched with \<open>dict.get\<close>, the account with a subscript (KeyError).
\<close>

fun has_for_unlocked :: "FeedBuilder \<Rightarrow> nat list \<Rightarrow> error + bool" where
  "has_for_unlocked st [] = Inr False"
| "has_for_unlocked st (tx # txs) =
     (case deposit_records st tx of
        None \<Rightarrow> has_for_unlocked st txs
      | Some record \<Rightarrow>
          (case map_of (accounts st) (client record) of
             None \<Rightarrow> Inl KeyError
           | Some account \<Rightarrow>
               if \<not> locked account then Inr True else has_for_unlocked st txs))"

definition has_posted_for_unlocked :: "FeedBuilder \<Rightarrow> error + bool" where
  "has_posted_for_unlocked st = has_for_unlocked st (posted_txs st)"

definition has_disputed_for_unlocked :: "FeedBuilder \<Rightarrow> error + bool" where
  "has_disputed_for_unlocked st = has_for_unlocked st (disputed_txs st)"

definition valid_actions :: "FeedBuilder \<Rightarrow> error + kind list" where
  "valid_actions st =
     (let unlocked = unlocked_clients st;
          funded = funded_clients st;
          actions = (if unlocked \<noteq> [] then [Deposit] else []);
          actions = actions @ (if funded \<noteq> [] then [Withdrawal] else [])
      in case has_posted_for_unlocked st of
           Inl e \<Rightarrow> Inl e
         | Inr has_posted \<Rightarrow>
             let actions = actions @ (if has_posted then [Dispute] else [])
             in (case has_disputed_for_unlocked st of
                   Inl e \<Rightarrow> Inl e
                 | Inr has_disputed \<Rightarrow>
                     let actions = actions @ (if has_disputed then [Resolve] else [])
                     in if 2 \<le> length unlocked
                        then (case has_disputed_for_unlocked st of
                                Inl e \<Rightarrow> Inl e
                              | Inr has_disputed2 \<Rightarrow>
                                  Inr (actions @ (if has_disputed2 then [ChargebackRow] else [])))
                        else Inr actions))"

definition action_order :: "(kind \<times> rat) list" where
  "action_order =
     [(Deposit, 48 / 100), (Withdrawal, 28 / 100), (Dispute, 12 / 100),
      (Resolve, 10 / 100), (ChargebackRow, 2 / 100)]"

definition action_weights :: "kind list \<Rightarrow> rat list" where
  "action_weights valid = map (\<lambda>(name, w). if name \<in> set valid then w else 0) action_order"

text \<open>The branch of \<open>next_row\<close> taken when no weight is positive.\<close>

definition fallback_deposit :: "FeedBuilder \<Rightarrow> error + (row \<times> FeedBuilder)" where
  "fallback_deposit st =
     (case choose_client False st of
        Inl e \<Rightarrow> Inl e
      | Inr (None, st1) \<Rightarrow> Inl RuntimeError_no_unlocked
      | Inr (Some client_id, st1) \<Rightarrow> random_deposit client_id st1)"

text \<open>The handlers of the three actions that take no client.\<close>

definition handler :: "kind \<Rightarrow> FeedBuilder \<Rightarrow> error + (row option \<times> FeedBuilder)" where
  "handler name st =
     (if name = Dispute then dispute st
      else if name = Resolve then resolve st
      else chargeback st)"

text \<open>
  \<open>next_row\<close> calls itself to draw again. The first argument is the number of nested
  calls the interpreter still allows; at \<open>0\<close> the call raises RecursionError.
\<close>

fun next_row :: "nat \<Rightarrow> FeedBuilder \<Rightarrow> error + (row \<times> FeedBuilder)" where
  "next_row 0 st = Inl RecursionError"
| "next_row (Suc depth) st =
     (case valid_actions st of
        Inl e \<Rightarrow> Inl e
      | Inr valid \<Rightarrow>
          let weights = action_weights valid in
          if \<not> (\<exists>w \<in> set weights. w \<noteq> 0) then fallback_deposit st
          else
            (case choices action_order weights (rng st) of
               Inl e \<Rightarrow> Inl e
             | Inr ((name, w), g) \<Rightarrow>
                 let st1 = st\<lparr>rng := g\<rparr> in
                 if name = Deposit \<or> name = Withdrawal then
                   (case choose_client (name = Withdrawal) st1 of
                      Inl e \<Rightarrow> Inl e
                    | Inr (None, st2) \<Rightarrow> next_row depth st2
                    | Inr (Some client_id, st2) \<Rightarrow>
                        if name = Deposit then random_deposit client_id st2
                        else random_withdrawal client_id st2)
                 else
                   (case (if name = ChargebackRow
                          then (case random_unit (rng st1) of
                                  (r, g2) \<Rightarrow> (35 / 100 < r, st1\<lparr>rng := g2\<rparr>))
                          else (False, st1)) of
                      (rejected, st2) \<Rightarrow>
                        if rejected then next_row depth st2
                        else
                          (case handler name st2 of
                             Inl e \<Rightarrow> Inl e
                           | Inr (None, st3) \<Rightarrow> next_row depth st3
                           | Inr (Some result, st3) \<Rightarrow> Inr (result, st3)))))"

subsection \<open>main\<close>

definition kind_name :: "kind \<Rightarrow> string" where
  "kind_name k =
     (case k of Deposit \<Rightarrow> ''deposit'' | Withdrawal \<Rightarrow> ''withdrawal'' | Dispute \<Rightarrow> ''dispute''
      | Resolve \<Rightarrow> ''resolve'' | ChargebackRow \<Rightarrow> ''chargeback'')"

fun join_comma :: "string list \<Rightarrow> string" where
  "join_comma [] = []"
| "join_comma [f] = f"
| "join_comma (f # fs) = f @ '','' @ join_comma fs"

text \<open>\<open>csv.writer(...).writerow\<close>: no field of a row needs quoting; lines end in CR LF.\<close>

definition writerow :: "string list \<Rightarrow> string" where
  "writerow fs = join_comma fs @ [CHR 0x0D, CHR 0x0A]"

definition header :: "string list" where
  "header = [''type'', ''client'', ''tx'', ''amount'']"

definition row_fields :: "row \<Rightarrow> string list" where
  "row_fields r = (case r of (k, c, tx, a) \<Rightarrow> [kind_name k, digits c, digits tx, a])"

text \<open>
  The loop of \<open>main\<close>: the rows produced before an exception have been written when
  it propagates.
\<close>

fun emit_rows :: "nat \<Rightarrow> nat \<Rightarrow> FeedBuilder \<Rightarrow> row list \<times> (error + FeedBuilder)" where
  "emit_rows limit 0 st = ([], Inr st)"
| "emit_rows limit (Suc n) st =
     (case next_row limit st of
        Inl e \<Rightarrow> ([], Inl e)
      | Inr (r, st') \<Rightarrow> (case emit_rows limit n st' of (rs, res) \<Rightarrow> (r # rs, res)))"

text \<open>
  \<open>main\<close> returns the lines written and the exception that ended the run, if any.
  \<open>limit\<close> is the interpreter's recursion limit as seen by a call of \<open>next_row\<close>.
\<close>

definition main :: "(int \<Rightarrow> rng) \<Rightarrow> nat \<Rightarrow> Args \<Rightarrow> rng \<Rightarrow> string list \<times> error option" where
  "main seed_fn limit args g0 =
     (case FeedBuilder_init seed_fn args g0 of
        Inl e \<Rightarrow> ([], Some e)
      | Inr builder \<Rightarrow>
          let total_rows = max 1 (arg_rows args) in
          (case emit_rows limit (nat (total_rows - 1)) builder of
             (rs, res) \<Rightarrow>
               (writerow header # map (\<lambda>r. writerow (row_fields r)) rs,
                case res of Inl e \<Rightarrow> Some e | Inr st \<Rightarrow> None)))"


subsection \<open>Auxiliary notions for the statements\<close>

text \<open>A decimal with at most four fractional digits: an integral multiple of \<open>BPS\<close>.\<close>

definition on_grid :: "rat \<Rightarrow> bool" where
  "on_grid x = (of_int \<lfloor>x / BPS\<rfloor> * BPS = x)"

text \<open>A generator whose first draws are the given ones, and \<open>0\<close> afterwards.\<close>

definition tape_of :: "nat list \<Rightarrow> rng" where
  "tape_of xs = (\<lambda>i. if i < length xs then xs ! i else 0)"

text \<open>The feed after \<open>n\<close> calls of \<open>next_row\<close> on a fresh builder, with the builder reached.\<close>

definition run :: "(int \<Rightarrow> rng) \<Rightarrow> nat \<Rightarrow> Args \<Rightarrow> rng \<Rightarrow> nat \<Rightarrow> row list \<times> (error + FeedBuilder)" where
  "run seed_fn limit args g0 n =
     (case FeedBuilder_init seed_fn args g0 of
        Inl e \<Rightarrow> ([], Inl e)
      | Inr builder \<Rightarrow> emit_rows limit n builder)"

text \<open>The accounts of the builder a run ends in: id, available, held, locked.\<close>

definition ledger_of :: "row list \<times> (error + FeedBuilder) \<Rightarrow> (nat \<times> rat \<times> rat \<times> bool) list" where
  "ledger_of r =
     (case snd r of
        Inl e \<Rightarrow> []
      | Inr st \<Rightarrow> map (\<lambda>(cid, a). (cid, available a, held a, locked a)) (accounts st))"

text \<open>Every record reachable from a pool is owned by a configured account.\<close>

definition owners_known :: "FeedBuilder \<Rightarrow> bool" where
  "owners_known st =
     (\<forall>tx \<in> set (posted_txs st) \<union> set (disputed_txs st).
        case deposit_records st tx of
          None \<Rightarrow> True
        | Some r \<Rightarrow> client r \<in> fst ` set (accounts st))"

text \<open>Pool membership against the status field of the records.\<close>

definition pools_in_lockstep :: "FeedBuilder \<Rightarrow> bool" where
  "pools_in_lockstep st =
     (distinct (posted_txs st) \<and> distinct (disputed_txs st)
      \<and> (\<forall>tx \<in> set (posted_txs st). tx \<notin> set (disputed_txs st))
      \<and> (\<forall>tx \<in> set (posted_txs st). map_option status (deposit_records st tx) = Some Posted)
      \<and> (\<forall>tx \<in> set (disputed_txs st).
            map_option status (deposit_records st tx) = Some Disputed))"

text \<open>The amount a transaction of the disputed pool holds back on account \<open>c\<close>.\<close>

definition held_for :: "FeedBuilder \<Rightarrow> nat \<Rightarrow> nat \<Rightarrow> rat" where
  "held_for st c tx =
     (case deposit_records st tx of
        None \<Rightarrow> 0
      | Some r \<Rightarrow> if client r = c then amount r else 0)"

definition disputed_total :: "FeedBuilder \<Rightarrow> nat \<Rightarrow> rat" where
  "disputed_total st c = sum_list (map (held_for st c) (disputed_txs st))"

definition records_ok :: "FeedBuilder \<Rightarrow> bool" where
  "records_ok st =
     (\<forall>tx r. deposit_records st tx = Some r \<longrightarrow>
        client r \<in> fst ` set (accounts st) \<and> tx < tx_counter st
        \<and> 0 \<le> amount r \<and> on_grid (amount r))"

definition balances_ok :: "FeedBuilder \<Rightarrow> bool" where
  "balances_ok st =
     (\<forall>(c, a) \<in> set (accounts st).
        0 \<le> held a \<and> on_grid (available a)
        \<and> (\<not> locked a \<longrightarrow> held a = disputed_total st c \<and> 0 \<le> available a + held a))"

definition ledger_inv :: "FeedBuilder \<Rightarrow> bool" where
  "ledger_inv st =
     (distinct (map fst (accounts st))
      \<and> 0 < min_amount st \<and> min_amount st < max_amount st
      \<and> records_ok st \<and> pools_in_lockstep st \<and> balances_ok st)"

text \<open>Two builders with the same accounts, records and counter.\<close>

definition same_ledger :: "FeedBuilder \<Rightarrow> FeedBuilder \<Rightarrow> bool" where
  "same_ledger st st1 =
     (accounts st1 = accounts st \<and> deposit_records st1 = deposit_records st
      \<and> tx_counter st1 = tx_counter st \<and> min_amount st1 = min_amount st
      \<and> max_amount st1 = max_amount st)"

text \<open>
  What one emitted row says about the builder before (\<open>st\<close>) and after (\<open>st'\<close>) it:
  the client named is unlocked before the row, locks are never released, a chargeback
  locks its client, deposits and withdrawals take the counter's value and advance it,
  the other rows name an existing record of the same client, and a record is only ever
  created by a deposit row.
\<close>

definition row_step :: "FeedBuilder \<Rightarrow> row \<Rightarrow> FeedBuilder \<Rightarrow> bool" where
  "row_step st r st' =
     (case r of (k, c, tx, amt) \<Rightarrow>
        (\<exists>a. map_of (accounts st) c = Some a \<and> \<not> locked a)
      \<and> map fst (accounts st') = map fst (accounts st)
      \<and> (\<forall>i a. map_of (accounts st) i = Some a \<and> locked a \<longrightarrow>
            (\<exists>a'. map_of (accounts st') i = Some a' \<and> locked a'))
      \<and> (k = ChargebackRow \<longrightarrow> (\<exists>a'. map_of (accounts st') c = Some a' \<and> locked a'))
      \<and> (if k = Deposit \<or> k = Withdrawal
          then tx = tx_counter st \<and> tx_counter st' = Suc tx
          else tx_counter st' = tx_counter st
               \<and> (\<exists>r. deposit_records st tx = Some r \<and> client r = c))
      \<and> (\<forall>t r'. deposit_records st' t = Some r' \<longrightarrow>
            (\<exists>r. deposit_records st t = Some r \<and> client r = client r')
            \<or> (k = Deposit \<and> t = tx \<and> client r' = c)))"

text \<open>A later state of the same generator: the tape with some draws consumed.\<close>

definition tail_of :: "rng \<Rightarrow> rng \<Rightarrow> bool" where
  "tail_of g' g = (\<exists>k. g' = (\<lambda>i. g (i + k)))"

text \<open>
  A generator on which \<open>random.random()\<close> never exceeds \<open>0.35\<close>, so that a drawn
  chargeback is never rejected.
\<close>

definition accepting :: "rng \<Rightarrow> bool" where
  "accepting g = (\<forall>i. (of_nat (g i mod 2 ^ 53) :: rat) / 2 ^ 53 \<le> 35 / 100)"

subsection \<open>Properties of a feed\<close>

definition row_kind :: "row \<Rightarrow> kind" where
  "row_kind r = fst r"

definition row_client :: "row \<Rightarrow> nat" where
  "row_client r = fst (snd r)"

definition row_tx :: "row \<Rightarrow> nat" where
  "row_tx r = fst (snd (snd r))"

text \<open>The rows that are given a transaction id of their own.\<close>

definition money :: "row \<Rightarrow> bool" where
  "money r = (row_kind r = Deposit \<or> row_kind r = Withdrawal)"

text \<open>
  After a chargeback row for a client, no later row names that client as a deposit,
  withdrawal, dispute or resolve.
\<close>

fun locked_out :: "row list \<Rightarrow> bool" where
  "locked_out [] = True"
| "locked_out (r # rs) =
     ((row_kind r = ChargebackRow \<longrightarrow>
         (\<forall>r' \<in> set rs. row_kind r' \<in> {Deposit, Withdrawal, Dispute, Resolve} \<longrightarrow>
             row_client r' \<noteq> row_client r))
      \<and> locked_out rs)"

text \<open>
  Every dispute, resolve and chargeback row carries the transaction id and the client of
  a deposit row emitted before it; \<open>seen\<close> are the rows already emitted.
\<close>

fun refs_ok :: "row list \<Rightarrow> row list \<Rightarrow> bool" where
  "refs_ok seen [] = True"
| "refs_ok seen (r # rs) =
     ((money r \<or> (\<exists>d \<in> set seen. row_kind d = Deposit \<and> row_tx d = row_tx r
                       \<and> row_client d = row_client r))
      \<and> refs_ok (seen @ [r]) rs)"

subsection \<open>Concrete configurations and generators\<close>

text \<open>\<open>--clients 1 --min-amount 1 --max-amount 10 --seed 1\<close>.\<close>

definition args_one_client :: Args where
  "args_one_client =
     \<lparr>arg_rows = 4, arg_clients = 1, arg_min_amount = 1, arg_max_amount = 10, arg_seed = 1\<rparr>"

text \<open>\<open>--clients 2 --min-amount 1 --max-amount 10 --seed 1\<close>.\<close>

definition args_two_clients :: Args where
  "args_two_clients =
     \<lparr>arg_rows = 5, arg_clients = 2, arg_min_amount = 1, arg_max_amount = 10, arg_seed = 1\<rparr>"

text \<open>\<open>--clients 1 --min-amount 0.00005 --max-amount 10 --seed 1\<close>.\<close>

definition args_fine_min :: Args where
  "args_fine_min =
     \<lparr>arg_rows = 3, arg_clients = 1, arg_min_amount = 1 / 20000, arg_max_amount = 10,
      arg_seed = 1\<rparr>"

text \<open>
  Seeded generators. The draws \<open>6755399441055744\<close>, \<open>8444249301319680\<close> and
  \<open>8866461766385664\<close> make \<open>random.random()\<close> return \<open>0.75\<close>, \<open>0.9375\<close> and
  \<open>0.984375\<close>.
\<close>

definition seed_zero :: "int \<Rightarrow> rng" where
  "seed_zero s = tape_of []"


definition seed_resolve :: "int \<Rightarrow> rng" where
  "seed_resolve s = tape_of [0, 0, 40000, 8444249301319680, 0, 8444249301319680, 0]"

definition seed_chargeback :: "int \<Rightarrow> rng" where
  "seed_chargeback s =
     tape_of [0, 0, 40000, 8444249301319680, 0, 8866461766385664, 0, 0, 0, 0, 0]"

definition seed_small_withdrawal :: "int \<Rightarrow> rng" where
  "seed_small_withdrawal s = tape_of [0, 0, 40000, 6755399441055744, 0, 0]"

text \<open>A builder whose only account is locked, and one with a disputed deposit.\<close>

definition all_locked :: FeedBuilder where
  "all_locked =
     \<lparr>min_amount = 1, max_amount = 10, tx_counter = 1,
      accounts = [(1, \<lparr>available = 0, held = 0, locked = True\<rparr>)],
      deposit_records = Map.empty, posted_txs = [], disputed_txs = [], rng = tape_of []\<rparr>"

definition in_dispute :: FeedBuilder where
  "in_dispute =
     \<lparr>min_amount = 1, max_amount = 10, tx_counter = 2,
      accounts = [(2, \<lparr>available = 0, held = 5, locked = False\<rparr>),
                  (1, \<lparr>available = 3, held = 0, locked = False\<rparr>)],
      deposit_records = [1 \<mapsto> \<lparr>client = 2, amount = 5, status = Disputed\<rparr>],
      posted_txs = [], disputed_txs = [1], rng = tape_of []\<rparr>"


section \<open>Rounding and the amount sampler\<close>

lemma BPS_pos: "0 < BPS" by (simp add: BPS_def)

lemma round_half_even_of_int [simp]: "round_half_even (of_int n) = n"
  by (simp add: round_half_even_def)

lemma round_half_up_of_int [simp]: "round_half_up (of_int n) = n"
  by (simp add: round_half_up_def) linarith

lemma round_half_even_bounds: "\<lfloor>x\<rfloor> \<le> round_half_even x \<and> round_half_even x \<le> \<lceil>x\<rceil>"
proof -
  have "x - of_int \<lfloor>x\<rfloor> \<noteq> 0 \<Longrightarrow> \<lfloor>x\<rfloor> + 1 \<le> \<lceil>x\<rceil>"
    by (metis ceiling_altdef diff_self eq_iff floor_of_int of_int_floor_cancel)
  then show ?thesis
    unfolding round_half_even_def Let_def
    by (auto simp: floor_le_ceiling)
qed

lemma round_half_even_mono: "x \<le> y \<Longrightarrow> round_half_even x \<le> round_half_even y"
proof -
  assume xy: "x \<le> y"
  have fl: "\<lfloor>x\<rfloor> \<le> \<lfloor>y\<rfloor>" using xy by (rule floor_mono)
  show ?thesis
  proof (cases "\<lfloor>x\<rfloor> = \<lfloor>y\<rfloor>")
    case True
    then show ?thesis using xy unfolding round_half_even_def Let_def by auto
  next
    case False
    with fl have "\<lfloor>x\<rfloor> + 1 \<le> \<lfloor>y\<rfloor>" by simp
    moreover have "round_half_even x \<le> \<lfloor>x\<rfloor> + 1"
      unfolding round_half_even_def Let_def by auto
    moreover have "\<lfloor>y\<rfloor> \<le> round_half_even y"
      unfolding round_half_even_def Let_def by auto
    ultimately show ?thesis by linarith
  qed
qed

lemma round_half_even_nonneg: "0 \<le> x \<Longrightarrow> 0 \<le> round_half_even x"
  using round_half_even_mono [of 0 x] round_half_even_of_int [of 0] by simp

lemma quantize_div_BPS: "int_of_decimal (quantize r x / BPS) = r (x / BPS)"
  by (simp add: quantize_def int_of_decimal_def BPS_def)

lemma quantize_half_up_grid: "quantize round_half_up (of_int k * BPS) = of_int k * BPS"
  by (simp add: quantize_def BPS_def)

lemma floor_rat_numeral_div [simp]: "\<lfloor>numeral a / numeral b :: rat\<rfloor> = numeral a div numeral b"
  by (metis floor_divide_of_int_eq of_int_numeral)

lemma floor_rat_one_div [simp]: "\<lfloor>1 / numeral b :: rat\<rfloor> = 1 div numeral b"
  by (metis floor_divide_of_int_eq of_int_1 of_int_numeral)

lemma draw_tape_Cons [simp]: "draw (tape_of (x # xs)) = (x, tape_of xs)"
  by (auto simp: draw_def tape_of_def fun_eq_iff)

lemma draw_tape_Nil [simp]: "draw (tape_of []) = (0, tape_of [])"
  by (auto simp: draw_def tape_of_def fun_eq_iff)

lemma on_grid_of_int [simp]: "on_grid (of_int k * BPS)"
  by (simp add: on_grid_def BPS_def)

lemma on_grid_D: "on_grid x \<Longrightarrow> x = of_int \<lfloor>x / BPS\<rfloor> * BPS"
  by (simp add: on_grid_def)

lemma quantize_on_grid: "on_grid x \<Longrightarrow> quantize round_half_even x = x"
proof -
  assume g: "on_grid x"
  have "x / BPS = of_int \<lfloor>x / BPS\<rfloor>"
    using on_grid_D [OF g] BPS_pos by (metis less_irrefl nonzero_mult_div_cancel_right)
  then have "round_half_even (x / BPS) = \<lfloor>x / BPS\<rfloor>"
    by (metis round_half_even_of_int)
  then show ?thesis using on_grid_D [OF g] by (simp add: quantize_def)
qed

lemma on_grid_add: "on_grid x \<Longrightarrow> on_grid y \<Longrightarrow> on_grid (x + y)"
proof -
  assume "on_grid x" "on_grid y"
  then have "x + y = of_int (\<lfloor>x / BPS\<rfloor> + \<lfloor>y / BPS\<rfloor>) * BPS"
    using on_grid_D [of x] on_grid_D [of y] by (simp add: algebra_simps)
  then show ?thesis by (metis on_grid_of_int)
qed

lemma on_grid_diff: "on_grid x \<Longrightarrow> on_grid y \<Longrightarrow> on_grid (x - y)"
proof -
  assume "on_grid x" "on_grid y"
  then have "x - y = of_int (\<lfloor>x / BPS\<rfloor> - \<lfloor>y / BPS\<rfloor>) * BPS"
    using on_grid_D [of x] on_grid_D [of y] by (simp add: algebra_simps)
  then show ?thesis by (metis on_grid_of_int)
qed

lemma on_grid_zero [simp]: "on_grid 0"
  by (simp add: on_grid_def)

lemma quantize_mono: "x \<le> y \<Longrightarrow> quantize round_half_even x \<le> quantize round_half_even y"
proof -
  assume "x \<le> y"
  then have "x / BPS \<le> y / BPS" using BPS_pos by (simp add: divide_right_mono)
  then have "round_half_even (x / BPS) \<le> round_half_even (y / BPS)"
    by (rule round_half_even_mono)
  then show ?thesis using BPS_pos by (simp add: quantize_def)
qed

lemma decimal_from_range_Inl:
  "decimal_from_range lo hi g = Inl e \<longleftrightarrow> hi \<le> 0 \<and> e = ValueError_max_amount"
  by (auto simp: decimal_from_range_def randint_def Let_def quantize_div_BPS
      split: prod.splits if_splits)

lemma decimal_from_range_Inr:
  assumes "decimal_from_range lo hi g = Inr (a, g')"
  shows "\<exists>k. a = of_int k * BPS \<and> round_half_even (lo / BPS) \<le> k
           \<and> k \<le> max (round_half_even (lo / BPS)) (round_half_even (hi / BPS))
           \<and> g' = snd (draw g)"
proof -
  define low where "low = round_half_even (lo / BPS)"
  define high where "high = (if round_half_even (hi / BPS) < low then low
                             else round_half_even (hi / BPS))"
  have lh: "low \<le> high" by (simp add: high_def)
  from assms have pos: "0 < hi"
    by (auto simp: decimal_from_range_def split: if_splits)
  from assms pos obtain k where rk: "randint low high g = Inr (k, g')"
      and ak: "a = quantize round_half_up (of_int k * BPS)"
    unfolding decimal_from_range_def low_def high_def Let_def quantize_div_BPS
    by (auto split: sum.splits prod.splits)
  from ak have ak: "a = of_int k * BPS" by (simp only: quantize_half_up_grid)
  from rk lh have "low \<le> k \<and> k \<le> high \<and> g' = snd (draw g)"
  proof -
    have m: "g 0 mod nat (high - low + 1) < nat (high - low + 1)"
      using lh by simp
    from rk lh have "k = low + int (g 0 mod nat (high - low + 1))" and "g' = snd (draw g)"
      by (auto simp: randint_def randbelow_def draw_def split: prod.splits)
    with m show ?thesis by linarith
  qed
  with ak show ?thesis unfolding low_def high_def by (intro exI [of _ k]) (auto simp: max_def)
qed

lemma decimal_from_range_total:
  "0 < hi \<Longrightarrow> \<exists>a g'. decimal_from_range lo hi g = Inr (a, g')"
  by (cases "decimal_from_range lo hi g") (auto simp: decimal_from_range_Inl)

lemma decimal_from_range_between:
  assumes r: "decimal_from_range lo hi g = Inr (a, g')" and le: "lo \<le> hi"
  shows "on_grid a \<and> quantize round_half_even lo \<le> a \<and> a \<le> quantize round_half_even hi"
proof -
  from decimal_from_range_Inr [OF r] obtain k where
    k: "a = of_int k * BPS" "round_half_even (lo / BPS) \<le> k"
       "k \<le> max (round_half_even (lo / BPS)) (round_half_even (hi / BPS))"
    by blast
  have "lo / BPS \<le> hi / BPS" using le BPS_pos by (simp add: divide_right_mono)
  then have "round_half_even (lo / BPS) \<le> round_half_even (hi / BPS)"
    by (rule round_half_even_mono)
  with k have "round_half_even (lo / BPS) \<le> k \<and> k \<le> round_half_even (hi / BPS)" by simp
  then show ?thesis using k(1) BPS_pos by (simp add: quantize_def)
qed


section \<open>The ledger invariant\<close>

subsection \<open>Accounts\<close>

lemma map_fst_set_account [simp]: "map fst (set_account c a accs) = map fst accs"
  by (induction accs) (auto simp: set_account_def)

lemma keys_set_account [simp]: "fst ` set (set_account c a accs) = fst ` set accs"
  by (metis map_fst_set_account set_map)

lemma map_of_set_account:
  "map_of (set_account c a accs) k =
     (if k = c then (if c \<in> fst ` set accs then Some a else None) else map_of accs k)"
  by (induction accs) (force simp: set_account_def)+

lemma set_set_account:
  "distinct (map fst accs) \<Longrightarrow> map_of accs c = Some a0 \<Longrightarrow>
   set (set_account c a accs) = insert (c, a) (set accs - {(c, a0)})"
proof (induction accs)
  case Nil
  then show ?case by simp
next
  case (Cons p accs)
  obtain k v where p: "p = (k, v)" by (cases p)
  show ?case
  proof (cases "k = c")
    case True
    with Cons.prems p have v: "v = a0" and notin: "c \<notin> fst ` set accs" by auto
    from notin have "set_account c a accs = accs"
      by (induction accs) (auto simp: set_account_def)
    moreover from notin have "(c, a0) \<notin> set accs" by force
    ultimately show ?thesis using p True v
      by (auto simp: set_account_def)
  next
    case False
    with Cons p show ?thesis by (auto simp: set_account_def)
  qed
qed

lemma unlocked_clients_iff:
  "c \<in> set (unlocked_clients st) \<longleftrightarrow> (\<exists>a. (c, a) \<in> set (accounts st) \<and> \<not> locked a)"
  by (force simp: unlocked_clients_def)

lemma funded_clients_iff:
  "c \<in> set (funded_clients st) \<longleftrightarrow>
     (\<exists>a. (c, a) \<in> set (accounts st) \<and> \<not> locked a \<and> min_amount st \<le> available a)"
  by (force simp: funded_clients_def)

subsection \<open>The primitives of the random module\<close>

lemma choice_Inr:
  "xs \<noteq> [] \<Longrightarrow> choice xs g = Inr (xs ! (g 0 mod length xs), snd (draw g))"
  by (simp add: choice_def randbelow_def draw_def)

lemma choice_in_set: "choice xs g = Inr (x, g') \<Longrightarrow> x \<in> set xs"
  by (auto simp: choice_def randbelow_def split: if_splits prod.splits)

lemma choice_Inl: "choice xs g = Inl e \<Longrightarrow> xs = []"
  by (auto simp: choice_def split: if_splits prod.splits)

lemma choose_client_cases:
  "choose_client rf st = Inr (None, st) \<and> (if rf then funded_clients st else unlocked_clients st) = []
   \<or> (\<exists>c g. choose_client rf st = Inr (Some c, st\<lparr>rng := g\<rparr>)
         \<and> c \<in> set (if rf then funded_clients st else unlocked_clients st)
         \<and> g = snd (draw (rng st)))"
proof (cases "(if rf then funded_clients st else unlocked_clients st) = []")
  case True
  then show ?thesis by (simp add: choose_client_def)
next
  case False
  then show ?thesis
    using choice_Inr [OF False, of "rng st"]
    by (auto simp: choose_client_def Let_def simp del: nth_mem intro!: nth_mem)
qed

subsection \<open>Picking a transaction from a pool\<close>

lemma choose_tx_props:
  "choose_tx st pool g = Inr (res, pool', g') \<Longrightarrow>
     set pool' \<subseteq> set pool \<and> (distinct pool \<longrightarrow> distinct pool')
     \<and> (\<forall>f. (\<forall>tx. \<not> tx_eligible st tx \<longrightarrow> f tx = (0::rat)) \<longrightarrow>
            sum_list (map f pool') = sum_list (map f pool))
     \<and> (case res of None \<Rightarrow> pool' = [] | Some tx \<Rightarrow> tx \<in> set pool' \<and> tx_eligible st tx)"
proof (induction st pool g rule: choose_tx.induct)
  case (1 st pool g)
  show ?case
  proof (cases "pool = []")
    case True
    with "1.prems" show ?thesis by (simp add: choose_tx.simps)
  next
    case False
    then obtain tx g1 where c: "choice pool g = Inr (tx, g1)"
      using choice_Inr [of pool g] by blast
    then have mem: "tx \<in> set pool" by (rule choice_in_set)
    show ?thesis
    proof (cases "tx_eligible st tx")
      case True
      with "1.prems" False c mem show ?thesis by (auto simp: choose_tx.simps)
    next
      case ne: False
      with "1.prems" False c have rec: "choose_tx st (remove1 tx pool) g1 = Inr (res, pool', g')"
        by (simp add: choose_tx.simps)
      note ih = "1.IH" [OF False c refl ne rec]
      have s: "sum_list (map f (remove1 tx pool)) = sum_list (map f pool)"
        if "f tx = (0::rat)" for f :: "nat \<Rightarrow> rat"
        using sum_list_map_remove1 [OF mem, of f] that by simp
      from ih ne s show ?thesis
        by (auto dest: notin_set_remove1 set_remove1_subset [THEN subsetD])
    qed
  qed
qed

lemma choose_tx_not_Inl: "choose_tx st pool g \<noteq> Inl e"
proof (induction st pool g rule: choose_tx.induct)
  case (1 st pool g)
  show ?case
  proof (cases "pool = []")
    case True
    then show ?thesis by (simp add: choose_tx.simps)
  next
    case False
    then obtain tx g1 where c: "choice pool g = Inr (tx, g1)"
      using choice_Inr [of pool g] by blast
    show ?thesis
    proof (cases "tx_eligible st tx")
      case True
      with False c show ?thesis by (simp add: choose_tx.simps)
    next
      case ne: False
      from "1.IH" [OF False c refl ne] False c ne show ?thesis
        by (simp add: choose_tx.simps)
    qed
  qed
qed

lemma choose_tx_found:
  "\<exists>tx \<in> set pool. tx_eligible st tx \<Longrightarrow>
   \<exists>tx pool' g'. choose_tx st pool g = Inr (Some tx, pool', g')"
proof -
  assume ex: "\<exists>tx \<in> set pool. tx_eligible st tx"
  obtain res pool' g' where r: "choose_tx st pool g = Inr (res, pool', g')"
    using choose_tx_not_Inl [of st pool g] by (cases "choose_tx st pool g") auto
  note p = choose_tx_props [OF r]
  show ?thesis
  proof (cases res)
    case None
    with p have e: "pool' = []" by simp
    from ex obtain tx where tx: "tx \<in> set pool" "tx_eligible st tx" by blast
    define f where "f = (\<lambda>t. if tx_eligible st t then (1::rat) else 0)"
    from p have "sum_list (map f pool') = sum_list (map f pool)" by (simp add: f_def)
    with e have z: "sum_list (map f pool) = 0" by simp
    have nn: "\<And>x. x \<in> set (map f pool) \<Longrightarrow> 0 \<le> x" by (auto simp: f_def)
    have "f tx \<le> sum_list (map f pool)"
      using member_le_sum_list [of "f tx" "map f pool"] tx(1) nn
      by (metis canonically_ordered_monoid_add_class.member_le_sum_list image_eqI list.set_map sum_list_nonneg_eq_0_iff z)
    with z tx(2) show ?thesis by (simp add: f_def)
  next
    case (Some tx)
    with r show ?thesis by blast
  qed
qed

subsection \<open>The invariant of the ledger\<close>

lemma held_for_upd [simp]:
  "held_for (st\<lparr>rng := g\<rparr>) = held_for st"
  "held_for (st\<lparr>posted_txs := p\<rparr>) = held_for st"
  "held_for (st\<lparr>disputed_txs := d\<rparr>) = held_for st"
  "held_for (st\<lparr>accounts := accs\<rparr>) = held_for st"
  "held_for (st\<lparr>tx_counter := n\<rparr>) = held_for st"
  by (simp_all add: fun_eq_iff held_for_def)

lemma ledger_inv_rng [simp]: "ledger_inv (st\<lparr>rng := g\<rparr>) = ledger_inv st"
  by (simp add: ledger_inv_def records_ok_def pools_in_lockstep_def balances_ok_def
      disputed_total_def)

lemma held_for_eq:
  "deposit_records st' t = Some r' \<Longrightarrow> deposit_records st t = Some r \<Longrightarrow>
   client r' = client r \<Longrightarrow> amount r' = amount r \<Longrightarrow> held_for st' c t = held_for st c t"
  by (simp add: held_for_def)

lemma disputed_total_eq:
  "disputed_txs st' = disputed_txs st \<Longrightarrow>
   (\<forall>t \<in> set (disputed_txs st). held_for st' c t = held_for st c t) \<Longrightarrow>
   disputed_total st' c = disputed_total st c"
  by (simp add: disputed_total_def cong: map_cong)

lemma pool_tx_below_counter:
  assumes "records_ok st" "pools_in_lockstep st"
    and "tx \<in> set (posted_txs st) \<union> set (disputed_txs st)"
  shows "tx < tx_counter st"
proof -
  from assms(2,3) obtain r where "deposit_records st tx = Some r"
    by (auto simp: pools_in_lockstep_def)
  with assms(1) show ?thesis by (simp add: records_ok_def)
qed

lemma random_deposit_Inr:
  "random_deposit c st = Inr (row, st') \<Longrightarrow>
   \<exists>amt g a. decimal_from_range (min_amount st) (max_amount st) (rng st) = Inr (amt, g)
     \<and> map_of (accounts st) c = Some a
     \<and> row = (Deposit, c, tx_counter st, format_amount amt)
     \<and> st' = st\<lparr>rng := g,
              accounts := set_account c (a\<lparr>available := available a + amt\<rparr>) (accounts st),
              tx_counter := tx_counter st + 1,
              deposit_records := (deposit_records st)
                 (tx_counter st \<mapsto> \<lparr>client = c, amount = amt, status = Posted\<rparr>),
              posted_txs := posted_txs st @ [tx_counter st]\<rparr>"
  by (auto simp: random_deposit_def Let_def split: sum.splits option.splits prod.splits)

lemma sampled_amount_nonneg:
  assumes "decimal_from_range lo hi g = Inr (amt, g')" "0 \<le> lo"
  shows "0 \<le> amt \<and> on_grid amt"
proof -
  from decimal_from_range_Inr [OF assms(1)] obtain k where
    k: "amt = of_int k * BPS" "round_half_even (lo / BPS) \<le> k" by blast
  have "0 \<le> lo / BPS" using assms(2) BPS_pos by simp
  then have "0 \<le> round_half_even (lo / BPS)" by (rule round_half_even_nonneg)
  with k BPS_pos show ?thesis by simp
qed

lemma random_deposit_inv:
  assumes inv: "ledger_inv st" and r: "random_deposit c st = Inr (row, st')"
  shows "ledger_inv st'"
proof -
  from random_deposit_Inr [OF r] obtain amt g a where
    d: "decimal_from_range (min_amount st) (max_amount st) (rng st) = Inr (amt, g)"
    and a: "map_of (accounts st) c = Some a"
    and st': "st' = st\<lparr>rng := g,
              accounts := set_account c (a\<lparr>available := available a + amt\<rparr>) (accounts st),
              tx_counter := tx_counter st + 1,
              deposit_records := (deposit_records st)
                 (tx_counter st \<mapsto> \<lparr>client = c, amount = amt, status = Posted\<rparr>),
              posted_txs := posted_txs st @ [tx_counter st]\<rparr>"
    by blast
  from inv have dk: "distinct (map fst (accounts st))" and ro: "records_ok st"
    and pl: "pools_in_lockstep st" and bo: "balances_ok st" and mn: "0 < min_amount st"
    by (simp_all add: ledger_inv_def)
  from sampled_amount_nonneg [OF d] mn have amt: "0 \<le> amt" "on_grid amt" by simp_all
  from a have cin: "c \<in> fst ` set (accounts st)" by (metis map_of_eq_None_iff option.distinct(1))
  have fresh: "tx_counter st \<notin> set (posted_txs st) \<union> set (disputed_txs st)"
    using pool_tx_below_counter [OF ro pl] by blast
  have nrec: "deposit_records st (tx_counter st) = None"
    using ro by (cases "deposit_records st (tx_counter st)") (auto simp: records_ok_def)
  have 1: "records_ok st'"
    using ro cin amt by (auto simp: records_ok_def st' less_Suc_eq)
  have 2: "pools_in_lockstep st'"
    using pl fresh by (auto simp: pools_in_lockstep_def st')
  have hf: "held_for st' k t = held_for st k t" if "t \<in> set (disputed_txs st)" for k t
    using that fresh by (auto simp: held_for_def st')
  have dt: "disputed_total st' k = disputed_total st k" for k
  proof (rule disputed_total_eq)
    show "disputed_txs st' = disputed_txs st" by (simp add: st')
    show "\<forall>t \<in> set (disputed_txs st). held_for st' k t = held_for st k t"
      using hf by blast
  qed
  have 3: "balances_ok st'"
    unfolding balances_ok_def
  proof (intro ballI, clarify)
    fix k v assume "(k, v) \<in> set (accounts st')"
    then have kv: "(k, v) = (c, a\<lparr>available := available a + amt\<rparr>) \<or> (k, v) \<in> set (accounts st)"
      using set_set_account [OF dk a] by (auto simp: st')
    from a have ain: "(c, a) \<in> set (accounts st)" by (rule map_of_SomeD)
    from bo ain have ba: "0 \<le> held a \<and> on_grid (available a)
        \<and> (\<not> locked a \<longrightarrow> held a = disputed_total st c \<and> 0 \<le> available a + held a)"
      by (auto simp: balances_ok_def)
    from kv show "0 \<le> held v \<and> on_grid (available v)
        \<and> (\<not> locked v \<longrightarrow> held v = disputed_total st' k \<and> 0 \<le> available v + held v)"
    proof
      assume "(k, v) = (c, a\<lparr>available := available a + amt\<rparr>)"
      with ba amt show ?thesis by (auto simp: dt on_grid_add)
    next
      assume "(k, v) \<in> set (accounts st)"
      with bo show ?thesis by (auto simp: balances_ok_def dt)
    qed
  qed
  from inv 1 2 3 show ?thesis by (simp add: ledger_inv_def) (simp add: st')
qed

lemma balances_ok_update:
  assumes dk: "distinct (map fst (accounts st))"
    and a: "map_of (accounts st) c = Some a"
    and bo: "balances_ok st"
    and acc: "accounts st' = set_account c a' (accounts st)"
    and dt: "\<And>k v. (k, v) \<in> set (accounts st) \<Longrightarrow> \<not> locked v \<Longrightarrow> k \<noteq> c \<Longrightarrow>
               disputed_total st' k = disputed_total st k"
    and new: "0 \<le> held a' \<and> on_grid (available a')
        \<and> (\<not> locked a' \<longrightarrow> held a' = disputed_total st' c \<and> 0 \<le> available a' + held a')"
  shows "balances_ok st'"
  unfolding balances_ok_def
proof (intro ballI, clarify)
  fix k v assume "(k, v) \<in> set (accounts st')"
  then have kv: "(k, v) = (c, a') \<or> ((k, v) \<in> set (accounts st) \<and> (k, v) \<noteq> (c, a))"
    using set_set_account [OF dk a] by (auto simp: acc)
  then show "0 \<le> held v \<and> on_grid (available v)
      \<and> (\<not> locked v \<longrightarrow> held v = disputed_total st' k \<and> 0 \<le> available v + held v)"
  proof
    assume "(k, v) = (c, a')"
    with new show ?thesis by auto
  next
    assume h: "(k, v) \<in> set (accounts st) \<and> (k, v) \<noteq> (c, a)"
    have "k \<noteq> c"
    proof
      assume "k = c"
      with h dk have "map_of (accounts st) c = Some v" by simp
      with a h \<open>k = c\<close> show False by simp
    qed
    with h bo dt [of k v] show ?thesis by (auto simp: balances_ok_def)
  qed
qed

lemma balances_ok_account:
  "balances_ok st \<Longrightarrow> distinct (map fst (accounts st)) \<Longrightarrow> map_of (accounts st) c = Some a \<Longrightarrow>
   0 \<le> held a \<and> on_grid (available a)
   \<and> (\<not> locked a \<longrightarrow> held a = disputed_total st c \<and> 0 \<le> available a + held a)"
  by (auto simp: balances_ok_def dest!: map_of_SomeD)

lemma random_withdrawal_Inr:
  "random_withdrawal c st = Inr (row, st') \<Longrightarrow>
   \<exists>amt g a. map_of (accounts st) c = Some a
     \<and> min_amount st \<le> min (available a) (max_amount st)
     \<and> decimal_from_range (min_amount st) (min (available a) (max_amount st)) (rng st)
         = Inr (amt, g)
     \<and> row = (Withdrawal, c, tx_counter st, format_amount amt)
     \<and> st' = st\<lparr>rng := g,
              accounts := set_account c (a\<lparr>available := available a - amt\<rparr>) (accounts st),
              tx_counter := tx_counter st + 1\<rparr>"
  by (auto simp: random_withdrawal_def Let_def split: sum.splits option.splits prod.splits if_splits)

lemma withdrawal_amount_le:
  assumes d: "decimal_from_range lo (min av mx) g = Inr (amt, g')"
    and le: "lo \<le> min av mx" and gr: "on_grid av"
  shows "amt \<le> av"
proof -
  from decimal_from_range_between [OF d le]
  have "amt \<le> quantize round_half_even (min av mx)" by simp
  also have "\<dots> \<le> quantize round_half_even av" by (rule quantize_mono) simp
  also have "\<dots> = av" using gr by (rule quantize_on_grid)
  finally show ?thesis .
qed

lemma random_withdrawal_inv:
  assumes inv: "ledger_inv st" and r: "random_withdrawal c st = Inr (row, st')"
  shows "ledger_inv st'"
proof -
  from random_withdrawal_Inr [OF r] obtain amt g a where
    a: "map_of (accounts st) c = Some a"
    and le: "min_amount st \<le> min (available a) (max_amount st)"
    and d: "decimal_from_range (min_amount st) (min (available a) (max_amount st)) (rng st)
         = Inr (amt, g)"
    and st': "st' = st\<lparr>rng := g,
              accounts := set_account c (a\<lparr>available := available a - amt\<rparr>) (accounts st),
              tx_counter := tx_counter st + 1\<rparr>"
    by blast
  from inv have dk: "distinct (map fst (accounts st))" and ro: "records_ok st"
    and pl: "pools_in_lockstep st" and bo: "balances_ok st" and mn: "0 < min_amount st"
    by (simp_all add: ledger_inv_def)
  note ba = balances_ok_account [OF bo dk a]
  from sampled_amount_nonneg [OF d] mn have amt: "0 \<le> amt" "on_grid amt" by simp_all
  from withdrawal_amount_le [OF d le] ba have amt_le: "amt \<le> available a" by simp
  have 1: "records_ok st'"
    using ro by (auto simp: records_ok_def st' less_Suc_eq)
  have 2: "pools_in_lockstep st'"
    using pl by (auto simp: pools_in_lockstep_def st')
  have dt: "disputed_total st' k = disputed_total st k" for k
    by (rule disputed_total_eq) (simp_all add: st' held_for_def)
  have 3: "balances_ok st'"
  proof (rule balances_ok_update [OF dk a bo])
    show "accounts st' = set_account c (a\<lparr>available := available a - amt\<rparr>) (accounts st)"
      by (simp add: st')
    show "0 \<le> held (a\<lparr>available := available a - amt\<rparr>)
        \<and> on_grid (available (a\<lparr>available := available a - amt\<rparr>))
        \<and> (\<not> locked (a\<lparr>available := available a - amt\<rparr>) \<longrightarrow>
             held (a\<lparr>available := available a - amt\<rparr>) = disputed_total st' c
             \<and> 0 \<le> available (a\<lparr>available := available a - amt\<rparr>)
                     + held (a\<lparr>available := available a - amt\<rparr>))"
      using ba amt amt_le by (auto simp: dt on_grid_diff)
  qed (simp add: dt)
  from inv 1 2 3 show ?thesis by (simp add: ledger_inv_def) (simp add: st')
qed

lemma tx_eligible_D:
  "tx_eligible st tx \<Longrightarrow>
   \<exists>r a. deposit_records st tx = Some r \<and> map_of (accounts st) (client r) = Some a \<and> \<not> locked a"
  by (auto simp: tx_eligible_def split: option.splits)

lemma held_for_ineligible:
  assumes dk: "distinct (map fst (accounts st))" and kv: "(k, v) \<in> set (accounts st)"
    and ul: "\<not> locked v" and ne: "\<not> tx_eligible st t"
  shows "held_for st k t = 0"
proof (cases "deposit_records st t")
  case None
  then show ?thesis by (simp add: held_for_def)
next
  case (Some r)
  show ?thesis
  proof (cases "client r = k")
    case True
    from dk kv have "map_of (accounts st) k = Some v" by simp
    with Some True ul ne show ?thesis by (simp add: tx_eligible_def)
  next
    case False
    with Some show ?thesis by (simp add: held_for_def)
  qed
qed

lemma held_for_nonneg: "records_ok st \<Longrightarrow> 0 \<le> held_for st k t"
  by (auto simp: held_for_def records_ok_def split: option.splits)

lemma held_for_status:
  "deposit_records st tx = Some r \<Longrightarrow>
   held_for (st\<lparr>deposit_records := (deposit_records st)(tx \<mapsto> r\<lparr>status := s\<rparr>)\<rparr>) = held_for st"
  by (auto simp: fun_eq_iff held_for_def)

text \<open>The three handlers share their first half: a pick from a pool.\<close>

lemma dispute_Inr:
  assumes "dispute st = Inr (res, st')"
  shows "(res = None \<and> (\<exists>g. st' = st\<lparr>posted_txs := [], rng := g\<rparr>))
       \<or> (\<exists>tx pool g r a. choose_tx st (posted_txs st) (rng st) = Inr (Some tx, pool, g)
            \<and> deposit_records st tx = Some r \<and> map_of (accounts st) (client r) = Some a
            \<and> res = Some (Dispute, client r, tx, [])
            \<and> st' = st\<lparr>rng := g, posted_txs := remove1 tx pool,
                 accounts := set_account (client r)
                    (a\<lparr>available := available a - amount r, held := held a + amount r\<rparr>)
                    (accounts st),
                 deposit_records := (deposit_records st)(tx \<mapsto> r\<lparr>status := Disputed\<rparr>),
                 disputed_txs := disputed_txs st @ [tx]\<rparr>)"
proof -
  obtain x pool g where c: "choose_tx st (posted_txs st) (rng st) = Inr (x, pool, g)"
    using choose_tx_not_Inl [of st "posted_txs st" "rng st"]
    by (cases "choose_tx st (posted_txs st) (rng st)") auto
  note p = choose_tx_props [OF c]
  show ?thesis
  proof (cases x)
    case None
    with p have "pool = []" by simp
    with assms c None show ?thesis by (auto simp: dispute_def)
  next
    case (Some tx)
    with assms c show ?thesis
      by (auto simp: dispute_def list_remove_def split: option.splits if_splits)
  qed
qed

lemma resolve_Inr:
  assumes "resolve st = Inr (res, st')"
  shows "(res = None \<and> (\<exists>g. choose_tx st (disputed_txs st) (rng st) = Inr (None, [], g)
            \<and> st' = st\<lparr>disputed_txs := [], rng := g\<rparr>))
       \<or> (\<exists>tx pool g r a. choose_tx st (disputed_txs st) (rng st) = Inr (Some tx, pool, g)
            \<and> deposit_records st tx = Some r \<and> map_of (accounts st) (client r) = Some a
            \<and> res = Some (Resolve, client r, tx, [])
            \<and> st' = st\<lparr>rng := g, disputed_txs := remove1 tx pool,
                 accounts := set_account (client r)
                    (a\<lparr>held := held a - amount r, available := available a + amount r\<rparr>)
                    (accounts st),
                 deposit_records := (deposit_records st)(tx \<mapsto> r\<lparr>status := Resolved\<rparr>)\<rparr>)"
proof -
  obtain x pool g where c: "choose_tx st (disputed_txs st) (rng st) = Inr (x, pool, g)"
    using choose_tx_not_Inl [of st "disputed_txs st" "rng st"]
    by (cases "choose_tx st (disputed_txs st) (rng st)") auto
  note p = choose_tx_props [OF c]
  show ?thesis
  proof (cases x)
    case None
    with p have "pool = []" by simp
    with assms c None show ?thesis by (auto simp: resolve_def)
  next
    case (Some tx)
    with assms c show ?thesis
      by (auto simp: resolve_def list_remove_def split: option.splits if_splits)
  qed
qed

lemma chargeback_Inr:
  assumes "chargeback st = Inr (res, st')"
  shows "(res = None \<and> (\<exists>g. choose_tx st (disputed_txs st) (rng st) = Inr (None, [], g)
            \<and> st' = st\<lparr>disputed_txs := [], rng := g\<rparr>))
       \<or> (\<exists>tx pool g r a. choose_tx st (disputed_txs st) (rng st) = Inr (Some tx, pool, g)
            \<and> deposit_records st tx = Some r \<and> map_of (accounts st) (client r) = Some a
            \<and> res = Some (ChargebackRow, client r, tx, [])
            \<and> st' = st\<lparr>rng := g, disputed_txs := remove1 tx pool,
                 accounts := set_account (client r)
                    (a\<lparr>held := held a - amount r, locked := True\<rparr>)
                    (accounts st),
                 deposit_records := (deposit_records st)(tx \<mapsto> r\<lparr>status := Chargeback\<rparr>)\<rparr>)"
proof -
  obtain x pool g where c: "choose_tx st (disputed_txs st) (rng st) = Inr (x, pool, g)"
    using choose_tx_not_Inl [of st "disputed_txs st" "rng st"]
    by (cases "choose_tx st (disputed_txs st) (rng st)") auto
  note p = choose_tx_props [OF c]
  show ?thesis
  proof (cases x)
    case None
    with p have "pool = []" by simp
    with assms c None show ?thesis by (auto simp: chargeback_def)
  next
    case (Some tx)
    with assms c show ?thesis
      by (auto simp: chargeback_def list_remove_def split: option.splits if_splits)
  qed
qed

lemma cleaned_total:
  assumes c: "choose_tx st (disputed_txs st) g0 = Inr (x, pool, g)"
    and dk: "distinct (map fst (accounts st))" and kv: "(k, v) \<in> set (accounts st)"
    and ul: "\<not> locked v"
  shows "sum_list (map (held_for st k) pool) = disputed_total st k"
proof -
  have "\<forall>t. \<not> tx_eligible st t \<longrightarrow> held_for st k t = 0"
    using held_for_ineligible [OF dk kv ul] by blast
  with choose_tx_props [OF c] show ?thesis by (simp add: disputed_total_def)
qed

lemma dispute_inv:
  assumes inv: "ledger_inv st" and r: "dispute st = Inr (res, st')"
  shows "ledger_inv st'"
proof -
  from inv have dk: "distinct (map fst (accounts st))" and ro: "records_ok st"
    and pl: "pools_in_lockstep st" and bo: "balances_ok st"
    by (simp_all add: ledger_inv_def)
  from dispute_Inr [OF r] show ?thesis
  proof (elim disjE conjE exE)
    fix g assume st': "st' = st\<lparr>posted_txs := [], rng := g\<rparr>"
    have "records_ok st'" using ro by (simp add: records_ok_def st')
    moreover have "pools_in_lockstep st'" using pl by (simp add: pools_in_lockstep_def st')
    moreover have "balances_ok st'"
      using bo by (simp add: balances_ok_def st' disputed_total_def)
    ultimately show ?thesis using inv by (simp add: ledger_inv_def) (simp add: st')
  next
    fix tx pool g rec a
    assume c: "choose_tx st (posted_txs st) (rng st) = Inr (Some tx, pool, g)"
      and rec: "deposit_records st tx = Some rec"
      and a: "map_of (accounts st) (client rec) = Some a"
      and st': "st' = st\<lparr>rng := g, posted_txs := remove1 tx pool,
                 accounts := set_account (client rec)
                    (a\<lparr>available := available a - amount rec, held := held a + amount rec\<rparr>)
                    (accounts st),
                 deposit_records := (deposit_records st)(tx \<mapsto> rec\<lparr>status := Disputed\<rparr>),
                 disputed_txs := disputed_txs st @ [tx]\<rparr>"
    from choose_tx_props [OF c] pl have sub: "set pool \<subseteq> set (posted_txs st)"
      and dp: "distinct pool" and mem: "tx \<in> set pool" and el: "tx_eligible st tx"
      by (simp_all add: pools_in_lockstep_def)
    from el rec a have ul: "\<not> locked a" by (simp add: tx_eligible_def)
    from mem sub pl have nd: "tx \<notin> set (disputed_txs st)"
      by (auto simp: pools_in_lockstep_def)
    from ro rec have ramt: "0 \<le> amount rec" "on_grid (amount rec)"
      by (simp_all add: records_ok_def)
    note ba = balances_ok_account [OF bo dk a]
    have 1: "records_ok st'"
      using ro rec by (auto simp: records_ok_def st')
    have 2: "pools_in_lockstep st'"
      using pl sub dp mem nd rec unfolding pools_in_lockstep_def st'
      by (auto simp: set_remove1_eq)
    have hf: "held_for st' = held_for st"
      using held_for_status [OF rec, of Disputed] by (simp add: st' fun_eq_iff held_for_def)
    have dt: "disputed_total st' k = disputed_total st k + held_for st k tx" for k
      by (simp add: disputed_total_def hf) (simp add: st')
    have 3: "balances_ok st'"
    proof (rule balances_ok_update [OF dk a bo])
      show "accounts st' = set_account (client rec)
          (a\<lparr>available := available a - amount rec, held := held a + amount rec\<rparr>) (accounts st)"
        by (simp add: st')
      show "disputed_total st' k = disputed_total st k" if "k \<noteq> client rec" for k
        using that rec by (simp add: dt held_for_def)
      show "0 \<le> held (a\<lparr>available := available a - amount rec, held := held a + amount rec\<rparr>)
        \<and> on_grid (available (a\<lparr>available := available a - amount rec,
                                held := held a + amount rec\<rparr>))
        \<and> (\<not> locked (a\<lparr>available := available a - amount rec, held := held a + amount rec\<rparr>) \<longrightarrow>
             held (a\<lparr>available := available a - amount rec, held := held a + amount rec\<rparr>)
               = disputed_total st' (client rec)
             \<and> 0 \<le> available (a\<lparr>available := available a - amount rec,
                                  held := held a + amount rec\<rparr>)
                     + held (a\<lparr>available := available a - amount rec,
                               held := held a + amount rec\<rparr>))"
        using ba ramt ul rec by (auto simp: dt held_for_def on_grid_diff)
    qed
    from inv 1 2 3 show ?thesis by (simp add: ledger_inv_def) (simp add: st')
  qed
qed

lemma closing_totals:
  assumes c: "choose_tx st (disputed_txs st) (rng st) = Inr (Some tx, pool, g)"
    and dk: "distinct (map fst (accounts st))" and ro: "records_ok st"
    and rec: "deposit_records st tx = Some rec"
    and kv: "(k, v) \<in> set (accounts st)" and ul: "\<not> locked v"
  shows "sum_list (map (held_for st k) (remove1 tx pool))
           = disputed_total st k - held_for st k tx"
    and "0 \<le> sum_list (map (held_for st k) (remove1 tx pool))"
proof -
  from choose_tx_props [OF c] have mem: "tx \<in> set pool" by simp
  from cleaned_total [OF c dk kv ul] sum_list_map_remove1 [OF mem, of "held_for st k"]
  show "sum_list (map (held_for st k) (remove1 tx pool)) = disputed_total st k - held_for st k tx"
    by simp
  show "0 \<le> sum_list (map (held_for st k) (remove1 tx pool))"
    by (rule sum_list_nonneg) (auto simp: held_for_nonneg [OF ro])
qed

lemma closing_pools:
  assumes c: "choose_tx st (disputed_txs st) (rng st) = Inr (Some tx, pool, g)"
    and pl: "pools_in_lockstep st" and rec: "deposit_records st tx = Some rec"
    and s: "s \<noteq> Disputed" "s \<noteq> Posted"
    and p: "posted_txs st' = posted_txs st" and d: "disputed_txs st' = remove1 tx pool"
    and recs: "deposit_records st' = (deposit_records st)(tx \<mapsto> rec\<lparr>status := s\<rparr>)"
  shows "pools_in_lockstep st'"
proof -
  from choose_tx_props [OF c] pl have sub: "set pool \<subseteq> set (disputed_txs st)"
    and dp: "distinct pool" and mem: "tx \<in> set pool"
    by (simp_all add: pools_in_lockstep_def)
  from mem sub pl have np: "tx \<notin> set (posted_txs st)"
    by (auto simp: pools_in_lockstep_def)
  show ?thesis
    using pl sub dp mem np rec unfolding pools_in_lockstep_def p d recs
    by (auto simp: set_remove1_eq)
qed

lemma emptied_disputed_inv:
  assumes inv: "ledger_inv st"
    and c: "choose_tx st (disputed_txs st) (rng st) = Inr (None, [], g)"
  shows "ledger_inv (st\<lparr>disputed_txs := [], rng := g\<rparr>)"
proof -
  from inv have dk: "distinct (map fst (accounts st))" and ro: "records_ok st"
    and pl: "pools_in_lockstep st" and bo: "balances_ok st"
    by (simp_all add: ledger_inv_def)
  have z: "disputed_total st k = 0" if "(k, v) \<in> set (accounts st)" "\<not> locked v" for k v
    using cleaned_total [OF c dk that] by simp
  have "balances_ok (st\<lparr>disputed_txs := [], rng := g\<rparr>)"
    using bo z by (fastforce simp: balances_ok_def disputed_total_def)
  moreover have "records_ok (st\<lparr>disputed_txs := [], rng := g\<rparr>)"
    using ro by (simp add: records_ok_def)
  moreover have "pools_in_lockstep (st\<lparr>disputed_txs := [], rng := g\<rparr>)"
    using pl by (simp add: pools_in_lockstep_def)
  ultimately show ?thesis using inv by (simp add: ledger_inv_def)
qed

lemma resolve_inv:
  assumes inv: "ledger_inv st" and r: "resolve st = Inr (res, st')"
  shows "ledger_inv st'"
proof -
  from inv have dk: "distinct (map fst (accounts st))" and ro: "records_ok st"
    and pl: "pools_in_lockstep st" and bo: "balances_ok st"
    by (simp_all add: ledger_inv_def)
  from resolve_Inr [OF r] show ?thesis
  proof (elim disjE conjE exE)
    fix g assume "choose_tx st (disputed_txs st) (rng st) = Inr (None, [], g)"
      and "st' = st\<lparr>disputed_txs := [], rng := g\<rparr>"
    then show ?thesis using emptied_disputed_inv [OF inv] by simp
  next
    fix tx pool g rec a
    assume c: "choose_tx st (disputed_txs st) (rng st) = Inr (Some tx, pool, g)"
      and rec: "deposit_records st tx = Some rec"
      and a: "map_of (accounts st) (client rec) = Some a"
      and st': "st' = st\<lparr>rng := g, disputed_txs := remove1 tx pool,
                 accounts := set_account (client rec)
                    (a\<lparr>held := held a - amount rec, available := available a + amount rec\<rparr>)
                    (accounts st),
                 deposit_records := (deposit_records st)(tx \<mapsto> rec\<lparr>status := Resolved\<rparr>)\<rparr>"
    from choose_tx_props [OF c] have el: "tx_eligible st tx" by simp
    from el rec a have ul: "\<not> locked a" by (simp add: tx_eligible_def)
    from a have ain: "(client rec, a) \<in> set (accounts st)" by (rule map_of_SomeD)
    from ro rec have ramt: "0 \<le> amount rec" "on_grid (amount rec)"
      by (simp_all add: records_ok_def)
    note ba = balances_ok_account [OF bo dk a]
    have 1: "records_ok st'"
      using ro rec by (auto simp: records_ok_def st')
    have 2: "pools_in_lockstep st'"
      by (rule closing_pools [OF c pl rec, of Resolved]) (simp_all add: st')
    have hf: "held_for st' = held_for st"
      using rec by (simp add: st' fun_eq_iff held_for_def)
    have dt: "disputed_total st' k = sum_list (map (held_for st k) (remove1 tx pool))" for k
      by (simp add: disputed_total_def hf) (simp add: st')
    have 3: "balances_ok st'"
    proof (rule balances_ok_update [OF dk a bo])
      show "accounts st' = set_account (client rec)
          (a\<lparr>held := held a - amount rec, available := available a + amount rec\<rparr>) (accounts st)"
        by (simp add: st')
      show "disputed_total st' k = disputed_total st k"
        if "(k, v) \<in> set (accounts st)" "\<not> locked v" "k \<noteq> client rec" for k v
        using closing_totals(1) [OF c dk ro rec that(1,2)] that(3) rec
        by (simp add: dt held_for_def)
      have h: "held a - amount rec = disputed_total st' (client rec)"
        using closing_totals(1) [OF c dk ro rec ain ul] ba ul rec by (simp add: dt held_for_def)
      have n: "0 \<le> disputed_total st' (client rec)"
        using closing_totals(2) [OF c dk ro rec ain ul] by (simp add: dt)
      have g: "on_grid (available a + amount rec)"
        using ba ramt by (simp add: on_grid_add)
      have t: "0 \<le> available a + amount rec + (held a - amount rec)"
        using ba ul by simp
      show "0 \<le> held (a\<lparr>held := held a - amount rec,
                                  available := available a + amount rec\<rparr>)
        \<and> on_grid (available (a\<lparr>held := held a - amount rec,
                                available := available a + amount rec\<rparr>))
        \<and> (\<not> locked (a\<lparr>held := held a - amount rec, available := available a + amount rec\<rparr>) \<longrightarrow>
             held (a\<lparr>held := held a - amount rec, available := available a + amount rec\<rparr>)
               = disputed_total st' (client rec)
             \<and> 0 \<le> available (a\<lparr>held := held a - amount rec,
                                  available := available a + amount rec\<rparr>)
                     + held (a\<lparr>held := held a - amount rec,
                               available := available a + amount rec\<rparr>))"
        using h n g t by (simp del: add_diff_eq diff_add_eq)
    qed
    from inv 1 2 3 show ?thesis by (simp add: ledger_inv_def) (simp add: st')
  qed
qed

lemma chargeback_inv:
  assumes inv: "ledger_inv st" and r: "chargeback st = Inr (res, st')"
  shows "ledger_inv st'"
proof -
  from inv have dk: "distinct (map fst (accounts st))" and ro: "records_ok st"
    and pl: "pools_in_lockstep st" and bo: "balances_ok st"
    by (simp_all add: ledger_inv_def)
  from chargeback_Inr [OF r] show ?thesis
  proof (elim disjE conjE exE)
    fix g assume "choose_tx st (disputed_txs st) (rng st) = Inr (None, [], g)"
      and "st' = st\<lparr>disputed_txs := [], rng := g\<rparr>"
    then show ?thesis using emptied_disputed_inv [OF inv] by simp
  next
    fix tx pool g rec a
    assume c: "choose_tx st (disputed_txs st) (rng st) = Inr (Some tx, pool, g)"
      and rec: "deposit_records st tx = Some rec"
      and a: "map_of (accounts st) (client rec) = Some a"
      and st': "st' = st\<lparr>rng := g, disputed_txs := remove1 tx pool,
                 accounts := set_account (client rec)
                    (a\<lparr>held := held a - amount rec, locked := True\<rparr>)
                    (accounts st),
                 deposit_records := (deposit_records st)(tx \<mapsto> rec\<lparr>status := Chargeback\<rparr>)\<rparr>"
    from choose_tx_props [OF c] have el: "tx_eligible st tx" by simp
    from el rec a have ul: "\<not> locked a" by (simp add: tx_eligible_def)
    from a have ain: "(client rec, a) \<in> set (accounts st)" by (rule map_of_SomeD)
    note ba = balances_ok_account [OF bo dk a]
    have 1: "records_ok st'"
      using ro rec by (auto simp: records_ok_def st')
    have 2: "pools_in_lockstep st'"
      by (rule closing_pools [OF c pl rec, of Chargeback]) (simp_all add: st')
    have hf: "held_for st' = held_for st"
      using rec by (simp add: st' fun_eq_iff held_for_def)
    have dt: "disputed_total st' k = sum_list (map (held_for st k) (remove1 tx pool))" for k
      by (simp add: disputed_total_def hf) (simp add: st')
    have 3: "balances_ok st'"
    proof (rule balances_ok_update [OF dk a bo])
      show "accounts st' = set_account (client rec)
          (a\<lparr>held := held a - amount rec, locked := True\<rparr>) (accounts st)"
        by (simp add: st')
      show "disputed_total st' k = disputed_total st k"
        if "(k, v) \<in> set (accounts st)" "\<not> locked v" "k \<noteq> client rec" for k v
        using closing_totals(1) [OF c dk ro rec that(1,2)] that(3) rec
        by (simp add: dt held_for_def)
      have h: "held a - amount rec = disputed_total st' (client rec)"
        using closing_totals(1) [OF c dk ro rec ain ul] ba ul rec by (simp add: dt held_for_def)
      have n: "0 \<le> disputed_total st' (client rec)"
        using closing_totals(2) [OF c dk ro rec ain ul] by (simp add: dt)
      have g: "on_grid (available a)" using ba by simp
      show "0 \<le> held (a\<lparr>held := held a - amount rec, locked := True\<rparr>)
        \<and> on_grid (available (a\<lparr>held := held a - amount rec, locked := True\<rparr>))
        \<and> (\<not> locked (a\<lparr>held := held a - amount rec, locked := True\<rparr>) \<longrightarrow>
             held (a\<lparr>held := held a - amount rec, locked := True\<rparr>)
               = disputed_total st' (client rec)
             \<and> 0 \<le> available (a\<lparr>held := held a - amount rec, locked := True\<rparr>)
                     + held (a\<lparr>held := held a - amount rec, locked := True\<rparr>))"
        using h n g by simp
    qed
    from inv 1 2 3 show ?thesis by (simp add: ledger_inv_def) (simp add: st')
  qed
qed

lemma handler_inv:
  "ledger_inv st \<Longrightarrow> handler name st = Inr (res, st') \<Longrightarrow> ledger_inv st'"
  by (auto simp: handler_def split: if_splits intro: dispute_inv resolve_inv chargeback_inv)

subsection \<open>What a row tells\<close>

lemma unlocked_account:
  "distinct (map fst (accounts st)) \<Longrightarrow> c \<in> set (unlocked_clients st) \<Longrightarrow>
   \<exists>a. map_of (accounts st) c = Some a \<and> \<not> locked a"
  by (auto simp: unlocked_clients_iff)

lemma funded_account:
  "distinct (map fst (accounts st)) \<Longrightarrow> c \<in> set (funded_clients st) \<Longrightarrow>
   \<exists>a. map_of (accounts st) c = Some a \<and> \<not> locked a \<and> min_amount st \<le> available a"
  by (auto simp: funded_clients_iff)

lemma locks_kept:
  assumes "map_of accs c = Some a" "locked a \<longrightarrow> locked a'"
  shows "\<forall>i b. map_of accs i = Some b \<and> locked b \<longrightarrow>
           (\<exists>b'. map_of (set_account c a' accs) i = Some b' \<and> locked b')"
proof -
  from assms(1) have "c \<in> fst ` set accs" by (metis map_of_eq_None_iff option.distinct(1))
  with assms show ?thesis by (auto simp: map_of_set_account)
qed

lemma random_deposit_row:
  assumes dk: "distinct (map fst (accounts st))" and c: "c \<in> set (unlocked_clients st)"
    and r: "random_deposit c st = Inr (row, st')"
  shows "row_step st row st'"
proof -
  from random_deposit_Inr [OF r] obtain amt g a where
    a: "map_of (accounts st) c = Some a"
    and row: "row = (Deposit, c, tx_counter st, format_amount amt)"
    and st': "st' = st\<lparr>rng := g,
              accounts := set_account c (a\<lparr>available := available a + amt\<rparr>) (accounts st),
              tx_counter := tx_counter st + 1,
              deposit_records := (deposit_records st)
                 (tx_counter st \<mapsto> \<lparr>client = c, amount = amt, status = Posted\<rparr>),
              posted_txs := posted_txs st @ [tx_counter st]\<rparr>"
    by blast
  from unlocked_account [OF dk c] a have ul: "\<not> locked a" by simp
  have lk: "\<forall>i b. map_of (accounts st) i = Some b \<and> locked b \<longrightarrow>
      (\<exists>b'. map_of (accounts st') i = Some b' \<and> locked b')"
    using locks_kept [OF a, of "a\<lparr>available := available a + amt\<rparr>"] by (simp add: st')
  show ?thesis
    unfolding row_step_def row using a ul lk by (simp add: st')
qed

lemma random_withdrawal_row:
  assumes dk: "distinct (map fst (accounts st))" and c: "c \<in> set (unlocked_clients st)"
    and r: "random_withdrawal c st = Inr (row, st')"
  shows "row_step st row st'"
proof -
  from random_withdrawal_Inr [OF r] obtain amt g a where
    a: "map_of (accounts st) c = Some a"
    and row: "row = (Withdrawal, c, tx_counter st, format_amount amt)"
    and st': "st' = st\<lparr>rng := g,
              accounts := set_account c (a\<lparr>available := available a - amt\<rparr>) (accounts st),
              tx_counter := tx_counter st + 1\<rparr>"
    by blast
  from unlocked_account [OF dk c] a have ul: "\<not> locked a" by simp
  have lk: "\<forall>i b. map_of (accounts st) i = Some b \<and> locked b \<longrightarrow>
      (\<exists>b'. map_of (accounts st') i = Some b' \<and> locked b')"
    using locks_kept [OF a, of "a\<lparr>available := available a - amt\<rparr>"] by (simp add: st')
  show ?thesis
    unfolding row_step_def row using a ul lk by (simp add: st')
qed

lemma funded_is_unlocked: "set (funded_clients st) \<subseteq> set (unlocked_clients st)"
  by (auto simp: funded_clients_iff unlocked_clients_iff)

lemma dispute_row:
  assumes r: "dispute st = Inr (Some row, st')"
  shows "row_step st row st'"
proof -
  from dispute_Inr [OF r] obtain tx pool g rec a where
    c: "choose_tx st (posted_txs st) (rng st) = Inr (Some tx, pool, g)"
    and rec: "deposit_records st tx = Some rec"
    and a: "map_of (accounts st) (client rec) = Some a"
    and row: "row = (Dispute, client rec, tx, [])"
    and st': "st' = st\<lparr>rng := g, posted_txs := remove1 tx pool,
                 accounts := set_account (client rec)
                    (a\<lparr>available := available a - amount rec, held := held a + amount rec\<rparr>)
                    (accounts st),
                 deposit_records := (deposit_records st)(tx \<mapsto> rec\<lparr>status := Disputed\<rparr>),
                 disputed_txs := disputed_txs st @ [tx]\<rparr>"
    by auto
  from choose_tx_props [OF c] rec a have ul: "\<not> locked a" by (simp add: tx_eligible_def)
  have lk: "\<forall>i b. map_of (accounts st) i = Some b \<and> locked b \<longrightarrow>
      (\<exists>b'. map_of (accounts st') i = Some b' \<and> locked b')"
    using locks_kept [OF a, of "a\<lparr>available := available a - amount rec,
        held := held a + amount rec\<rparr>"] by (simp add: st')
  show ?thesis
    unfolding row_step_def row using a ul lk rec by (simp add: st')
qed

lemma resolve_row:
  assumes r: "resolve st = Inr (Some row, st')"
  shows "row_step st row st'"
proof -
  from resolve_Inr [OF r] obtain tx pool g rec a where
    c: "choose_tx st (disputed_txs st) (rng st) = Inr (Some tx, pool, g)"
    and rec: "deposit_records st tx = Some rec"
    and a: "map_of (accounts st) (client rec) = Some a"
    and row: "row = (Resolve, client rec, tx, [])"
    and st': "st' = st\<lparr>rng := g, disputed_txs := remove1 tx pool,
                 accounts := set_account (client rec)
                    (a\<lparr>held := held a - amount rec, available := available a + amount rec\<rparr>)
                    (accounts st),
                 deposit_records := (deposit_records st)(tx \<mapsto> rec\<lparr>status := Resolved\<rparr>)\<rparr>"
    by auto
  from choose_tx_props [OF c] rec a have ul: "\<not> locked a" by (simp add: tx_eligible_def)
  have lk: "\<forall>i b. map_of (accounts st) i = Some b \<and> locked b \<longrightarrow>
      (\<exists>b'. map_of (accounts st') i = Some b' \<and> locked b')"
    using locks_kept [OF a, of "a\<lparr>held := held a - amount rec,
        available := available a + amount rec\<rparr>"] by (simp add: st')
  show ?thesis
    unfolding row_step_def row using a ul lk rec by (simp add: st')
qed

lemma chargeback_row:
  assumes r: "chargeback st = Inr (Some row, st')"
  shows "row_step st row st'"
proof -
  from chargeback_Inr [OF r] obtain tx pool g rec a where
    c: "choose_tx st (disputed_txs st) (rng st) = Inr (Some tx, pool, g)"
    and rec: "deposit_records st tx = Some rec"
    and a: "map_of (accounts st) (client rec) = Some a"
    and row: "row = (ChargebackRow, client rec, tx, [])"
    and st': "st' = st\<lparr>rng := g, disputed_txs := remove1 tx pool,
                 accounts := set_account (client rec)
                    (a\<lparr>held := held a - amount rec, locked := True\<rparr>)
                    (accounts st),
                 deposit_records := (deposit_records st)(tx \<mapsto> rec\<lparr>status := Chargeback\<rparr>)\<rparr>"
    by auto
  from choose_tx_props [OF c] rec a have ul: "\<not> locked a" by (simp add: tx_eligible_def)
  from a have cin: "client rec \<in> fst ` set (accounts st)"
    by (metis map_of_eq_None_iff option.distinct(1))
  have lk: "\<forall>i b. map_of (accounts st) i = Some b \<and> locked b \<longrightarrow>
      (\<exists>b'. map_of (accounts st') i = Some b' \<and> locked b')"
    using locks_kept [OF a, of "a\<lparr>held := held a - amount rec, locked := True\<rparr>"]
    by (simp add: st')
  show ?thesis
    unfolding row_step_def row using a ul lk rec cin by (simp add: st' map_of_set_account)
qed

lemma handler_row: "handler name st = Inr (Some row, st') \<Longrightarrow> row_step st row st'"
  by (auto simp: handler_def split: if_splits intro: dispute_row resolve_row chargeback_row)

lemma handler_None: "handler name st = Inr (None, st') \<Longrightarrow> same_ledger st st'"
  by (auto simp: handler_def same_ledger_def split: if_splits
      dest!: dispute_Inr resolve_Inr chargeback_Inr)

lemma row_step_same_ledger: "same_ledger st st1 \<Longrightarrow> row_step st1 r st' \<Longrightarrow> row_step st r st'"
  by (auto simp: same_ledger_def row_step_def split: prod.splits)

subsection \<open>Legal actions and the weighted draw\<close>

lemma has_for_unlocked_Inr:
  "(\<forall>tx \<in> set pool. case deposit_records st tx of None \<Rightarrow> True
                     | Some r \<Rightarrow> client r \<in> fst ` set (accounts st)) \<Longrightarrow>
   has_for_unlocked st pool = Inr (\<exists>tx \<in> set pool. tx_eligible st tx)"
proof (induction pool)
  case Nil
  then show ?case by simp
next
  case (Cons tx pool)
  show ?case
  proof (cases "deposit_records st tx")
    case None
    with Cons show ?thesis by (simp add: tx_eligible_def)
  next
    case (Some r)
    with Cons.prems have "client r \<in> fst ` set (accounts st)" by simp
    then obtain a where "map_of (accounts st) (client r) = Some a"
      by (metis map_of_eq_None_iff not_Some_eq)
    with Some Cons show ?thesis by (simp add: tx_eligible_def)
  qed
qed

lemma valid_actions_Inr:
  assumes "owners_known st"
  shows "valid_actions st =
     Inr ((if unlocked_clients st \<noteq> [] then [Deposit] else [])
        @ (if funded_clients st \<noteq> [] then [Withdrawal] else [])
        @ (if \<exists>tx \<in> set (posted_txs st). tx_eligible st tx then [Dispute] else [])
        @ (if \<exists>tx \<in> set (disputed_txs st). tx_eligible st tx then [Resolve] else [])
        @ (if 2 \<le> length (unlocked_clients st) \<and> (\<exists>tx \<in> set (disputed_txs st). tx_eligible st tx)
           then [ChargebackRow] else []))"
proof -
  from assms have p: "has_posted_for_unlocked st = Inr (\<exists>tx \<in> set (posted_txs st). tx_eligible st tx)"
    unfolding has_posted_for_unlocked_def
    by (intro has_for_unlocked_Inr) (simp add: owners_known_def)
  from assms have d: "has_disputed_for_unlocked st
      = Inr (\<exists>tx \<in> set (disputed_txs st). tx_eligible st tx)"
    unfolding has_disputed_for_unlocked_def
    by (intro has_for_unlocked_Inr) (simp add: owners_known_def)
  show ?thesis by (simp add: valid_actions_def p d Let_def)
qed

lemma ledger_inv_owners: "ledger_inv st \<Longrightarrow> owners_known st"
  by (auto simp: ledger_inv_def owners_known_def records_ok_def split: option.splits)

lemma bisect_cum_bound: "ws \<noteq> [] \<Longrightarrow> bisect_cum ws acc x < length ws"
  by (induction ws acc x rule: bisect_cum.induct) auto

lemma bisect_cum_positive:
  "\<forall>w \<in> set ws. 0 \<le> w \<Longrightarrow> acc \<le> x \<Longrightarrow> x < acc + sum_list ws \<Longrightarrow>
   0 < ws ! bisect_cum ws acc x"
  by (induction ws acc x rule: bisect_cum.induct) (auto simp: add.assoc)

lemma random_unit_range:
  "0 \<le> fst (random_unit g) \<and> fst (random_unit g) < 1 \<and> snd (random_unit g) = snd (draw g)"
proof -
  have "g 0 mod 2 ^ 53 < (2::nat) ^ 53" by simp
  then have "(of_nat (g 0 mod 2 ^ 53) :: rat) < of_nat (2 ^ 53)"
    by (simp only: of_nat_less_iff)
  then show ?thesis by (simp add: random_unit_def draw_def)
qed

lemma choices_Inr:
  assumes nn: "\<forall>w \<in> set ws. 0 \<le> w" and nz: "\<exists>w \<in> set ws. w \<noteq> 0"
  shows "\<exists>i. i < length ws \<and> 0 < ws ! i \<and> choices pop ws g = Inr (pop ! i, snd (draw g))"
proof -
  from nz obtain w where w: "w \<in> set ws" "w \<noteq> 0" by blast
  with nn have "0 < w" by force
  moreover have "w \<le> sum_list ws" using member_le_sum_list [OF w(1)] nn by simp
  ultimately have tot: "0 < sum_list ws" by simp
  obtain r g' where ru: "random_unit g = (r, g')" by (cases "random_unit g")
  with random_unit_range [of g] have r: "0 \<le> r" "r < 1" and g': "g' = snd (draw g)" by simp_all
  from r tot have lo: "0 \<le> r * sum_list ws" and hi: "r * sum_list ws < 0 + sum_list ws"
    by simp_all
  from w have "ws \<noteq> []" by auto
  then have b: "bisect_cum ws 0 (r * sum_list ws) < length ws" by (rule bisect_cum_bound)
  from bisect_cum_positive [OF nn lo hi] b tot ru g' show ?thesis
    by (auto simp: choices_def Let_def)
qed

lemma chosen_action:
  assumes "\<exists>w \<in> set (action_weights valid). w \<noteq> 0"
  shows "\<exists>name w. choices action_order (action_weights valid) g = Inr ((name, w), snd (draw g))
           \<and> name \<in> set valid"
proof -
  have nn: "\<forall>w \<in> set (action_weights valid). 0 \<le> w"
    by (simp add: action_weights_def action_order_def)
  from choices_Inr [OF nn assms, of action_order g] obtain i where
    i: "i < length (action_weights valid)" "0 < action_weights valid ! i"
    and c: "choices action_order (action_weights valid) g = Inr (action_order ! i, snd (draw g))"
    by blast
  from i(1) have il: "i < length action_order" by (simp add: action_weights_def)
  with i(2) have "fst (action_order ! i) \<in> set valid"
    by (auto simp: action_weights_def split: prod.splits if_splits)
  with c show ?thesis by (cases "action_order ! i") auto
qed

lemma clients_rng [simp]:
  "unlocked_clients (st\<lparr>rng := g\<rparr>) = unlocked_clients st"
  "funded_clients (st\<lparr>rng := g\<rparr>) = funded_clients st"
  by (simp_all add: unlocked_clients_def funded_clients_def)

lemma same_ledger_rng [simp]: "same_ledger st (st\<lparr>rng := g\<rparr>)" "same_ledger st st"
  by (simp_all add: same_ledger_def)

lemma same_ledger_trans: "same_ledger a b \<Longrightarrow> same_ledger b c \<Longrightarrow> same_ledger a c"
  by (simp add: same_ledger_def)

subsection \<open>One call of \<open>next_row\<close>\<close>

declare next_row.simps [simp del]

lemma next_row_fallback:
  assumes "valid_actions st = Inr valid" "\<not> (\<exists>w \<in> set (action_weights valid). w \<noteq> 0)"
  shows "next_row (Suc d) st = fallback_deposit st"
  by (simp only: next_row.simps assms sum.case Let_def if_True simp_thms)

lemma next_row_drawn:
  assumes "valid_actions st = Inr valid" "\<exists>w \<in> set (action_weights valid). w \<noteq> 0"
    and "choices action_order (action_weights valid) (rng st) = Inr ((name, w), g)"
    and "st1 = st\<lparr>rng := g\<rparr>"
  shows "next_row (Suc d) st =
     (if name = Deposit \<or> name = Withdrawal then
        (case choose_client (name = Withdrawal) st1 of
           Inl e \<Rightarrow> Inl e
         | Inr (None, st2) \<Rightarrow> next_row d st2
         | Inr (Some client_id, st2) \<Rightarrow>
             if name = Deposit then random_deposit client_id st2
             else random_withdrawal client_id st2)
      else
        (case (if name = ChargebackRow
               then (case random_unit (rng st1) of
                       (r, g2) \<Rightarrow> (35 / 100 < r, st1\<lparr>rng := g2\<rparr>))
               else (False, st1)) of
           (rejected, st2) \<Rightarrow>
             if rejected then next_row d st2
             else
               (case handler name st2 of
                  Inl e \<Rightarrow> Inl e
                | Inr (None, st3) \<Rightarrow> next_row d st3
                | Inr (Some result, st3) \<Rightarrow> Inr (result, st3))))"
  unfolding assms(4)
  by (simp only: next_row.simps assms(1-3) sum.case prod.case Let_def if_False simp_thms)

lemma next_row_cases:
  "\<exists>st1. same_ledger st st1 \<and> (ledger_inv st \<longrightarrow> ledger_inv st1) \<and>
     (next_row (Suc d) st = next_row d st1
      \<or> (\<exists>c \<in> set (unlocked_clients st1). next_row (Suc d) st = random_deposit c st1)
      \<or> (\<exists>c \<in> set (funded_clients st1). next_row (Suc d) st = random_withdrawal c st1)
      \<or> (\<exists>name row st'. handler name st1 = Inr (Some row, st')
             \<and> next_row (Suc d) st = Inr (row, st'))
      \<or> (\<exists>name e. handler name st1 = Inl e \<and> next_row (Suc d) st = Inl e)
      \<or> (\<exists>e. valid_actions st = Inl e \<and> next_row (Suc d) st = Inl e)
      \<or> (unlocked_clients st = [] \<and> next_row (Suc d) st = Inl RuntimeError_no_unlocked))"
  (is "\<exists>st1. ?P st1")
proof (cases "valid_actions st")
  case (Inl e)
  then have "next_row (Suc d) st = Inl e" by (simp add: next_row.simps)
  with Inl have p: "?P st" by simp
  show ?thesis by (rule exI [of _ "st"]) (rule p)
next
  case (Inr valid)
  show ?thesis
  proof (cases "\<exists>w \<in> set (action_weights valid). w \<noteq> 0")
    case False
    have nr: "next_row (Suc d) st = fallback_deposit st"
      using Inr False by (rule next_row_fallback)
    from choose_client_cases [of False st] show ?thesis
    proof (elim disjE conjE exE)
      assume "choose_client False st = Inr (None, st)"
        and "(if False then funded_clients st else unlocked_clients st) = []"
      with nr have p: "?P st" by (simp add: fallback_deposit_def)
      show ?thesis by (rule exI [of _ "st"]) (rule p)
    next
      fix c g
      assume "choose_client False st = Inr (Some c, st\<lparr>rng := g\<rparr>)"
        and "c \<in> set (if False then funded_clients st else unlocked_clients st)"
      with nr have p: "?P (st\<lparr>rng := g\<rparr>)" by (auto simp: fallback_deposit_def)
      show ?thesis by (rule exI [of _ "st\<lparr>rng := g\<rparr>"]) (rule p)
    qed
  next
    case True
    from True have nz: "\<not> (\<forall>w \<in> set (action_weights valid). w = 0)" by blast
    define g where "g = snd (draw (rng st))"
    from chosen_action [OF True, of "rng st"] obtain name w where
      ch: "choices action_order (action_weights valid) (rng st) = Inr ((name, w), g)"
      unfolding g_def by (elim exE conjE)
    define st1 where "st1 = st\<lparr>rng := g\<rparr>"
    have sl1: "same_ledger st st1" and inv1: "ledger_inv st \<longrightarrow> ledger_inv st1"
      by (simp_all add: st1_def)
    show ?thesis
    proof (cases "name = Deposit \<or> name = Withdrawal")
      case money: True
      have nr: "next_row (Suc d) st =
          (case choose_client (name = Withdrawal) st1 of
             Inl e \<Rightarrow> Inl e
           | Inr (None, st2) \<Rightarrow> next_row d st2
           | Inr (Some client_id, st2) \<Rightarrow>
               if name = Deposit then random_deposit client_id st2
               else random_withdrawal client_id st2)"
        using next_row_drawn [OF Inr True ch st1_def, of d] money by (simp only: if_True)
      from choose_client_cases [of "name = Withdrawal" st1] show ?thesis
      proof (elim disjE conjE exE)
        assume "choose_client (name = Withdrawal) st1 = Inr (None, st1)"
        with nr sl1 inv1 have p: "?P st1" by simp
        show ?thesis by (rule exI [of _ "st1"]) (rule p)
      next
        fix c g'
        assume cc: "choose_client (name = Withdrawal) st1 = Inr (Some c, st1\<lparr>rng := g'\<rparr>)"
          and cm: "c \<in> set (if name = Withdrawal then funded_clients st1 else unlocked_clients st1)"
        have sl2: "same_ledger st (st1\<lparr>rng := g'\<rparr>)"
          and inv2: "ledger_inv st \<longrightarrow> ledger_inv (st1\<lparr>rng := g'\<rparr>)"
          by (simp_all add: st1_def same_ledger_def)
        from nr cc cm money have
          "(\<exists>c \<in> set (unlocked_clients (st1\<lparr>rng := g'\<rparr>)).
              next_row (Suc d) st = random_deposit c (st1\<lparr>rng := g'\<rparr>))
           \<or> (\<exists>c \<in> set (funded_clients (st1\<lparr>rng := g'\<rparr>)).
              next_row (Suc d) st = random_withdrawal c (st1\<lparr>rng := g'\<rparr>))"
          by (cases "name = Deposit") auto
        with sl2 inv2 have p: "?P (st1\<lparr>rng := g'\<rparr>)" by blast
        show ?thesis by (rule exI [of _ "st1\<lparr>rng := g'\<rparr>"]) (rule p)
      qed
    next
      case other: False
      obtain rejected st2 where dmp:
        "(if name = ChargebackRow
          then (case random_unit (rng st1) of (r, g2) \<Rightarrow> (35 / 100 < r, st1\<lparr>rng := g2\<rparr>))
          else (False, st1)) = (rejected, st2)"
        by (cases "(if name = ChargebackRow
          then (case random_unit (rng st1) of (r, g2) \<Rightarrow> (35 / 100 < r, st1\<lparr>rng := g2\<rparr>))
          else (False, st1))")
      then have st2: "\<exists>g2. st2 = st\<lparr>rng := g2\<rparr>"
        by (auto simp: st1_def split: if_splits prod.splits)
      then have sl2: "same_ledger st st2" and inv2: "ledger_inv st \<longrightarrow> ledger_inv st2"
        by auto
      have nr: "next_row (Suc d) st =
          (if rejected then next_row d st2
           else (case handler name st2 of
                   Inl e \<Rightarrow> Inl e
                 | Inr (None, st3) \<Rightarrow> next_row d st3
                 | Inr (Some result, st3) \<Rightarrow> Inr (result, st3)))"
        using next_row_drawn [OF Inr True ch st1_def, of d] other
        by (simp only: if_False dmp prod.case)
      show ?thesis
      proof (cases rejected)
        case True
        with nr sl2 inv2 have p: "?P st2" by simp
        show ?thesis by (rule exI [of _ "st2"]) (rule p)
      next
        case False
        show ?thesis
        proof (cases "handler name st2")
          case (Inl e)
          with nr False sl2 inv2 have p: "?P st2" by auto
          show ?thesis by (rule exI [of _ "st2"]) (rule p)
        next
          case hr: (Inr p)
          obtain res st3 where p: "p = (res, st3)" by (cases p)
          show ?thesis
          proof (cases res)
            case None
            from hr p None have h: "handler name st2 = Inr (None, st3)" by simp
            from handler_None [OF h] sl2 have "same_ledger st st3" by (rule same_ledger_trans [rotated])
            moreover have "ledger_inv st \<longrightarrow> ledger_inv st3"
              using handler_inv [OF _ h] inv2 by blast
            moreover have "next_row (Suc d) st = next_row d st3"
              using nr False h by simp
            ultimately have p: "?P st3" by simp
            show ?thesis by (rule exI [of _ "st3"]) (rule p)
          next
            case (Some row)
            with hr p have h: "handler name st2 = Inr (Some row, st3)" by simp
            with nr False have "next_row (Suc d) st = Inr (row, st3)" by simp
            with h sl2 inv2 have p: "?P st2" by blast
            show ?thesis by (rule exI [of _ "st2"]) (rule p)
          qed
        qed
      qed
    qed
  qed
qed

subsection \<open>Tapes\<close>

lemma tail_of_refl [simp]: "tail_of g g"
  unfolding tail_of_def by (rule exI [of _ 0]) simp

lemma tail_of_draw [simp]: "tail_of (snd (draw g)) g"
  unfolding tail_of_def draw_def by (rule exI [of _ 1]) simp

lemma tail_of_trans: "tail_of g2 g1 \<Longrightarrow> tail_of g1 g \<Longrightarrow> tail_of g2 g"
proof -
  assume "tail_of g2 g1" "tail_of g1 g"
  then obtain k l where "g2 = (\<lambda>i. g1 (i + k))" "g1 = (\<lambda>i. g (i + l))"
    unfolding tail_of_def by blast
  then have "g2 = (\<lambda>i. g (i + (k + l)))" by (simp add: add.assoc)
  then show ?thesis unfolding tail_of_def by (rule exI)
qed

lemma accepting_tail: "tail_of g' g \<Longrightarrow> accepting g \<Longrightarrow> accepting g'"
  by (auto simp: tail_of_def accepting_def)

lemma accepting_unit: "accepting g \<Longrightarrow> \<not> 35 / 100 < fst (random_unit g)"
proof -
  assume "accepting g"
  then have "(of_nat (g 0 mod 2 ^ 53) :: rat) / 2 ^ 53 \<le> 35 / 100"
    unfolding accepting_def by (rule allE)
  then show ?thesis by (simp add: random_unit_def draw_def)
qed

lemma choice_tail: "choice xs g = Inr (x, g') \<Longrightarrow> tail_of g' g"
proof -
  assume c: "choice xs g = Inr (x, g')"
  then have "xs \<noteq> []" by (auto simp: choice_def)
  from choice_Inr [OF this, of g] c have "g' = snd (draw g)" by simp
  then show ?thesis by simp
qed

lemma choose_tx_tail: "choose_tx st pool g = Inr (res, pool', g') \<Longrightarrow> tail_of g' g"
proof (induction st pool g rule: choose_tx.induct)
  case (1 st pool g)
  show ?case
  proof (cases "pool = []")
    case True
    with "1.prems" show ?thesis by (simp add: choose_tx.simps)
  next
    case False
    then obtain tx g1 where c: "choice pool g = Inr (tx, g1)"
      using choice_Inr [of pool g] by blast
    note t1 = choice_tail [OF c]
    show ?thesis
    proof (cases "tx_eligible st tx")
      case True
      with "1.prems" False c t1 show ?thesis by (auto simp: choose_tx.simps)
    next
      case ne: False
      with "1.prems" False c have rec: "choose_tx st (remove1 tx pool) g1 = Inr (res, pool', g')"
        by (simp add: choose_tx.simps)
      from "1.IH" [OF False c refl ne rec] t1 show ?thesis by (rule tail_of_trans)
    qed
  qed
qed

lemma sampled_tail: "decimal_from_range lo hi g = Inr (amt, g') \<Longrightarrow> tail_of g' g"
  using decimal_from_range_Inr [of lo hi g amt g'] by auto

lemma random_deposit_tail: "random_deposit c st = Inr (row, st') \<Longrightarrow> tail_of (rng st') (rng st)"
  by (auto dest!: random_deposit_Inr dest: sampled_tail)

lemma random_withdrawal_tail:
  "random_withdrawal c st = Inr (row, st') \<Longrightarrow> tail_of (rng st') (rng st)"
  by (auto dest!: random_withdrawal_Inr dest: sampled_tail)

lemma handler_tail: "handler name st = Inr (Some row, st') \<Longrightarrow> tail_of (rng st') (rng st)"
  by (auto simp: handler_def split: if_splits
      dest!: dispute_Inr resolve_Inr chargeback_Inr dest: choose_tx_tail)

subsection \<open>Handlers never raise on a consistent ledger\<close>

lemma random_deposit_ok:
  assumes "0 < max_amount st" "c \<in> fst ` set (accounts st)"
  shows "\<exists>row st'. random_deposit c st = Inr (row, st')"
proof -
  from decimal_from_range_total [OF assms(1)] obtain amt g where
    "decimal_from_range (min_amount st) (max_amount st) (rng st) = Inr (amt, g)" by blast
  moreover from assms(2) obtain a where "map_of (accounts st) c = Some a"
    by (metis map_of_eq_None_iff not_Some_eq)
  ultimately show ?thesis by (simp add: random_deposit_def Let_def)
qed

lemma random_withdrawal_ok:
  assumes dk: "distinct (map fst (accounts st))" and mn: "0 < min_amount st"
    and mx: "min_amount st \<le> max_amount st" and c: "c \<in> set (funded_clients st)"
  shows "\<exists>row st'. random_withdrawal c st = Inr (row, st')"
proof -
  from funded_account [OF dk c] obtain a where
    a: "map_of (accounts st) c = Some a" "min_amount st \<le> available a" by blast
  with mx have le: "\<not> min (available a) (max_amount st) < min_amount st" by simp
  with mn have "0 < min (available a) (max_amount st)" by linarith
  from decimal_from_range_total [OF this] obtain amt g where
    "decimal_from_range (min_amount st) (min (available a) (max_amount st)) (rng st) = Inr (amt, g)"
    by blast
  with a le show ?thesis by (simp add: random_withdrawal_def Let_def)
qed

lemma tx_eligible_rng [simp]: "tx_eligible (st\<lparr>rng := g\<rparr>) = tx_eligible st"
  by (auto simp: fun_eq_iff tx_eligible_def split: option.splits)

lemma picked:
  assumes "\<exists>tx \<in> set pool. tx_eligible st tx"
  shows "\<exists>tx pool' g' r a. choose_tx st pool g = Inr (Some tx, pool', g') \<and> tx \<in> set pool'
           \<and> deposit_records st tx = Some r \<and> map_of (accounts st) (client r) = Some a"
proof -
  from choose_tx_found [OF assms] obtain tx pool' g' where
    c: "choose_tx st pool g = Inr (Some tx, pool', g')" by blast
  from choose_tx_props [OF c] have "tx \<in> set pool'" "tx_eligible st tx" by simp_all
  with tx_eligible_D [of st tx] c show ?thesis by blast
qed

lemma dispute_found:
  "\<exists>tx \<in> set (posted_txs st). tx_eligible st tx \<Longrightarrow> \<exists>row st'. dispute st = Inr (Some row, st')"
  using picked [of "posted_txs st" st "rng st"]
  by (auto simp: dispute_def list_remove_def)

lemma resolve_found:
  "\<exists>tx \<in> set (disputed_txs st). tx_eligible st tx \<Longrightarrow> \<exists>row st'. resolve st = Inr (Some row, st')"
  using picked [of "disputed_txs st" st "rng st"]
  by (auto simp: resolve_def list_remove_def)

lemma chargeback_found:
  "\<exists>tx \<in> set (disputed_txs st). tx_eligible st tx \<Longrightarrow>
   \<exists>row st'. chargeback st = Inr (Some row, st')"
  using picked [of "disputed_txs st" st "rng st"]
  by (auto simp: chargeback_def list_remove_def)

subsection \<open>The outcomes of one call of \<open>next_row\<close> on a consistent ledger\<close>

lemma valid_name_D:
  assumes "owners_known st" "valid_actions st = Inr valid" "name \<in> set valid"
  shows "(name = Deposit \<longrightarrow> unlocked_clients st \<noteq> [])
       \<and> (name = Withdrawal \<longrightarrow> funded_clients st \<noteq> [])
       \<and> (name = Dispute \<longrightarrow> (\<exists>tx \<in> set (posted_txs st). tx_eligible st tx))
       \<and> (name = Resolve \<longrightarrow> (\<exists>tx \<in> set (disputed_txs st). tx_eligible st tx))
       \<and> (name = ChargebackRow \<longrightarrow> 2 \<le> length (unlocked_clients st)
             \<and> (\<exists>tx \<in> set (disputed_txs st). tx_eligible st tx))"
  using assms(2,3) unfolding valid_actions_Inr [OF assms(1)]
  by (auto split: if_splits)

lemma handler_found:
  assumes "owners_known st" "valid_actions st = Inr valid" "name \<in> set valid"
    and "name \<noteq> Deposit" "name \<noteq> Withdrawal"
  shows "\<exists>row st'. handler name (st\<lparr>rng := g\<rparr>) = Inr (Some row, st')"
proof -
  note v = valid_name_D [OF assms(1-3)]
  show ?thesis
  proof (cases name)
    case Dispute
    with v have "\<exists>tx \<in> set (posted_txs (st\<lparr>rng := g\<rparr>)). tx_eligible (st\<lparr>rng := g\<rparr>) tx" by simp
    from dispute_found [OF this] Dispute show ?thesis by (simp add: handler_def)
  next
    case Resolve
    with v have "\<exists>tx \<in> set (disputed_txs (st\<lparr>rng := g\<rparr>)). tx_eligible (st\<lparr>rng := g\<rparr>) tx"
      by simp
    from resolve_found [OF this] Resolve show ?thesis by (simp add: handler_def)
  next
    case ChargebackRow
    with v have "\<exists>tx \<in> set (disputed_txs (st\<lparr>rng := g\<rparr>)). tx_eligible (st\<lparr>rng := g\<rparr>) tx"
      by simp
    from chargeback_found [OF this] ChargebackRow show ?thesis by (simp add: handler_def)
  qed (use assms in simp_all)
qed

lemma next_row_outcomes:
  assumes inv: "ledger_inv st"
  shows "(unlocked_clients st = [] \<and> next_row (Suc d) st = Inl RuntimeError_no_unlocked)
   \<or> (\<exists>g. tail_of g (rng st) \<and>
        ((\<exists>c \<in> set (unlocked_clients st). next_row (Suc d) st = random_deposit c (st\<lparr>rng := g\<rparr>))
       \<or> (\<exists>c \<in> set (funded_clients st).
             next_row (Suc d) st = random_withdrawal c (st\<lparr>rng := g\<rparr>))
       \<or> (\<exists>name row st'. handler name (st\<lparr>rng := g\<rparr>) = Inr (Some row, st')
             \<and> name \<noteq> Deposit \<and> name \<noteq> Withdrawal
             \<and> (name = ChargebackRow \<longrightarrow> 2 \<le> length (unlocked_clients st))
             \<and> next_row (Suc d) st = Inr (row, st'))
       \<or> (2 \<le> length (unlocked_clients st) \<and> \<not> accepting (rng st)
             \<and> next_row (Suc d) st = next_row d (st\<lparr>rng := g\<rparr>))))"
  (is "?A \<or> (\<exists>g. ?P g)")
proof -
  from inv have ok: "owners_known st" by (rule ledger_inv_owners)
  obtain valid where va: "valid_actions st = Inr valid"
    using valid_actions_Inr [OF ok] by blast
  show ?thesis
  proof (cases "\<exists>w \<in> set (action_weights valid). w \<noteq> 0")
    case False
    have nr: "next_row (Suc d) st = fallback_deposit st"
      using va False by (rule next_row_fallback)
    from choose_client_cases [of False st] show ?thesis
    proof (elim disjE conjE exE)
      assume "choose_client False st = Inr (None, st)"
        and "(if False then funded_clients st else unlocked_clients st) = []"
      with nr have ?A by (simp add: fallback_deposit_def)
      then show ?thesis ..
    next
      fix c g
      assume cc: "choose_client False st = Inr (Some c, st\<lparr>rng := g\<rparr>)"
        and cm: "c \<in> set (if False then funded_clients st else unlocked_clients st)"
        and gd: "g = snd (draw (rng st))"
      from gd have t: "tail_of g (rng st)" by simp
      from nr cc cm have "\<exists>c \<in> set (unlocked_clients st).
          next_row (Suc d) st = random_deposit c (st\<lparr>rng := g\<rparr>)"
        by (auto simp: fallback_deposit_def)
      with t have p: "?P g" by blast
      show ?thesis by (rule disjI2, rule exI [of _ g]) (rule p)
    qed
  next
    case True
    define g1 where "g1 = snd (draw (rng st))"
    from chosen_action [OF True, of "rng st"] obtain name w where
      ch: "choices action_order (action_weights valid) (rng st) = Inr ((name, w), g1)"
      and nv: "name \<in> set valid"
      unfolding g1_def by (elim exE conjE)
    define st1 where "st1 = st\<lparr>rng := g1\<rparr>"
    have t1: "tail_of g1 (rng st)" by (simp add: g1_def)
    note v = valid_name_D [OF ok va nv]
    note nd = next_row_drawn [OF va True ch st1_def, of d]
    show ?thesis
    proof (cases "name = Deposit \<or> name = Withdrawal")
      case money: True
      have nr: "next_row (Suc d) st =
          (case choose_client (name = Withdrawal) st1 of
             Inl e \<Rightarrow> Inl e
           | Inr (None, st2) \<Rightarrow> next_row d st2
           | Inr (Some client_id, st2) \<Rightarrow>
               if name = Deposit then random_deposit client_id st2
               else random_withdrawal client_id st2)"
        using nd money by (simp only: if_True)
      have pool: "(if name = Withdrawal then funded_clients st1 else unlocked_clients st1) \<noteq> []"
        using v money by (auto simp: st1_def)
      with choose_client_cases [of "name = Withdrawal" st1] obtain c g2 where
        cc: "choose_client (name = Withdrawal) st1 = Inr (Some c, st1\<lparr>rng := g2\<rparr>)"
        and cm: "c \<in> set (if name = Withdrawal then funded_clients st1 else unlocked_clients st1)"
        and gd: "g2 = snd (draw (rng st1))"
        by auto
      from gd have "tail_of g2 g1" by (simp add: st1_def)
      then have t2: "tail_of g2 (rng st)" using t1 by (rule tail_of_trans)
      have e: "st1\<lparr>rng := g2\<rparr> = st\<lparr>rng := g2\<rparr>" by (simp add: st1_def)
      from nr cc cm money have
        "(\<exists>c \<in> set (unlocked_clients st). next_row (Suc d) st = random_deposit c (st\<lparr>rng := g2\<rparr>))
         \<or> (\<exists>c \<in> set (funded_clients st).
               next_row (Suc d) st = random_withdrawal c (st\<lparr>rng := g2\<rparr>))"
        unfolding e by (cases "name = Deposit") (auto simp: st1_def)
      with t2 have p: "?P g2" by blast
      show ?thesis by (rule disjI2, rule exI [of _ g2]) (rule p)
    next
      case other: False
      obtain rejected st2 where dmp:
        "(if name = ChargebackRow
          then (case random_unit (rng st1) of (r, g2) \<Rightarrow> (35 / 100 < r, st1\<lparr>rng := g2\<rparr>))
          else (False, st1)) = (rejected, st2)"
        by (cases "(if name = ChargebackRow
          then (case random_unit (rng st1) of (r, g2) \<Rightarrow> (35 / 100 < r, st1\<lparr>rng := g2\<rparr>))
          else (False, st1))")
      define g2 where "g2 = rng st2"
      from dmp have st2: "st2 = st\<lparr>rng := g2\<rparr>"
        by (auto simp: st1_def g2_def split: if_splits prod.splits)
      from dmp have "g2 = g1 \<or> g2 = snd (random_unit g1)"
        by (auto simp: st1_def g2_def split: if_splits prod.splits)
      then have "tail_of g2 g1" using random_unit_range [of g1] by auto
      then have t2: "tail_of g2 (rng st)" using t1 by (rule tail_of_trans)
      from dmp have rej: "rejected \<longrightarrow> name = ChargebackRow \<and> 35 / 100 < fst (random_unit g1)"
        by (auto simp: st1_def split: if_splits prod.splits)
      have nr: "next_row (Suc d) st =
          (if rejected then next_row d st2
           else (case handler name st2 of
                   Inl e \<Rightarrow> Inl e
                 | Inr (None, st3) \<Rightarrow> next_row d st3
                 | Inr (Some result, st3) \<Rightarrow> Inr (result, st3)))"
        using nd other by (simp only: if_False dmp prod.case)
      show ?thesis
      proof (cases rejected)
        case True
        with rej have "\<not> accepting g1" using accepting_unit [of g1] by blast
        with t1 have "\<not> accepting (rng st)" using accepting_tail by blast
        moreover from True rej v have "2 \<le> length (unlocked_clients st)" by simp
        moreover from nr True have "next_row (Suc d) st = next_row d (st\<lparr>rng := g2\<rparr>)"
          by (simp add: st2)
        ultimately have p: "?P g2" using t2 by blast
        show ?thesis by (rule disjI2, rule exI [of _ g2]) (rule p)
      next
        case False
        from other have nm: "name \<noteq> Deposit" "name \<noteq> Withdrawal" by simp_all
        from handler_found [OF ok va nv this, of g2] obtain row st' where
          h: "handler name (st\<lparr>rng := g2\<rparr>) = Inr (Some row, st')" by blast
        with nr False have "next_row (Suc d) st = Inr (row, st')" by (simp add: st2)
        with h v t2 nm have p: "?P g2" by blast
        show ?thesis by (rule disjI2, rule exI [of _ g2]) (rule p)
      qed
    qed
  qed
qed

lemma row_step_rng [simp]: "row_step (st\<lparr>rng := g\<rparr>) r st' = row_step st r st'"
  by (simp add: row_step_def split: prod.splits)

lemma set_account_absent: "c \<notin> fst ` set accs \<Longrightarrow> set_account c a accs = accs"
  by (induction accs) (auto simp: set_account_def)

lemma unlocked_kept:
  "distinct (map fst accs) \<Longrightarrow> map_of accs c = Some a \<Longrightarrow> locked a' = locked a \<Longrightarrow>
   map fst (filter (\<lambda>(k, v). \<not> locked v) (set_account c a' accs))
     = map fst (filter (\<lambda>(k, v). \<not> locked v) accs)"
proof (induction accs)
  case Nil
  then show ?case by simp
next
  case (Cons p accs)
  obtain k v where p: "p = (k, v)" by (cases p)
  show ?case
  proof (cases "k = c")
    case True
    with Cons.prems p have "c \<notin> fst ` set accs" and v: "v = a" by auto
    then have "set_account c a' accs = accs" using set_account_absent by blast
    then have "set_account c a' (p # accs) = (c, a') # accs"
      using p True by (simp add: set_account_def)
    with p True v Cons.prems(3) show ?thesis by simp
  next
    case False
    then have "set_account c a' (p # accs) = p # set_account c a' accs"
      using p by (simp add: set_account_def)
    moreover from False Cons.prems p have "map_of accs c = Some a" by simp
    ultimately show ?thesis using Cons by simp
  qed
qed

lemma unlocked_count:
  "distinct (map fst accs) \<Longrightarrow>
   length (filter (\<lambda>(k, v). \<not> locked v) accs)
     \<le> Suc (length (filter (\<lambda>(k, v). \<not> locked v) (set_account c a' accs)))"
proof (induction accs)
  case Nil
  then show ?case by (simp add: set_account_def)
next
  case (Cons p accs)
  obtain k v where p: "p = (k, v)" by (cases p)
  show ?case
  proof (cases "k = c")
    case True
    with Cons.prems p have "c \<notin> fst ` set accs" by auto
    then have "set_account c a' accs = accs" by (rule set_account_absent)
    then have "set_account c a' (p # accs) = (c, a') # accs"
      using p True by (simp add: set_account_def)
    then show ?thesis by simp
  next
    case False
    then have "set_account c a' (p # accs) = p # set_account c a' accs"
      using p by (simp add: set_account_def)
    with Cons show ?thesis by auto
  qed
qed

lemma random_deposit_unlocked:
  assumes "distinct (map fst (accounts st))" "random_deposit c st = Inr (row, st')"
  shows "unlocked_clients st' = unlocked_clients st"
proof -
  from random_deposit_Inr [OF assms(2)] obtain amt a where
    "map_of (accounts st) c = Some a"
    "accounts st' = set_account c (a\<lparr>available := available a + amt\<rparr>) (accounts st)"
    by auto
  with unlocked_kept [OF assms(1), of c a "a\<lparr>available := available a + amt\<rparr>"]
  show ?thesis by (simp add: unlocked_clients_def)
qed

lemma random_withdrawal_unlocked:
  assumes "distinct (map fst (accounts st))" "random_withdrawal c st = Inr (row, st')"
  shows "unlocked_clients st' = unlocked_clients st"
proof -
  from random_withdrawal_Inr [OF assms(2)] obtain amt a where
    "map_of (accounts st) c = Some a"
    "accounts st' = set_account c (a\<lparr>available := available a - amt\<rparr>) (accounts st)"
    by auto
  with unlocked_kept [OF assms(1), of c a "a\<lparr>available := available a - amt\<rparr>"]
  show ?thesis by (simp add: unlocked_clients_def)
qed

lemma dispute_unlocked:
  assumes "distinct (map fst (accounts st))" "dispute st = Inr (Some row, st')"
  shows "unlocked_clients st' = unlocked_clients st"
proof -
  from dispute_Inr [OF assms(2)] obtain tx pool g r a where
    a: "map_of (accounts st) (client r) = Some a"
    and st': "st' = st\<lparr>rng := g, posted_txs := remove1 tx pool,
                 accounts := set_account (client r)
                    (a\<lparr>available := available a - amount r, held := held a + amount r\<rparr>)
                    (accounts st),
                 deposit_records := (deposit_records st)(tx \<mapsto> r\<lparr>status := Disputed\<rparr>),
                 disputed_txs := disputed_txs st @ [tx]\<rparr>"
    by auto
  from unlocked_kept [OF assms(1) a, of
      "a\<lparr>available := available a - amount r, held := held a + amount r\<rparr>"]
  show ?thesis by (simp add: unlocked_clients_def st')
qed

lemma resolve_unlocked:
  assumes "distinct (map fst (accounts st))" "resolve st = Inr (Some row, st')"
  shows "unlocked_clients st' = unlocked_clients st"
proof -
  from resolve_Inr [OF assms(2)] obtain tx pool g r a where
    a: "map_of (accounts st) (client r) = Some a"
    and st': "st' = st\<lparr>rng := g, disputed_txs := remove1 tx pool,
                 accounts := set_account (client r)
                    (a\<lparr>held := held a - amount r, available := available a + amount r\<rparr>)
                    (accounts st),
                 deposit_records := (deposit_records st)(tx \<mapsto> r\<lparr>status := Resolved\<rparr>)\<rparr>"
    by auto
  from unlocked_kept [OF assms(1) a, of
      "a\<lparr>held := held a - amount r, available := available a + amount r\<rparr>"]
  show ?thesis by (simp add: unlocked_clients_def st')
qed

lemma chargeback_unlocked:
  assumes "distinct (map fst (accounts st))" "chargeback st = Inr (Some row, st')"
  shows "length (unlocked_clients st) \<le> Suc (length (unlocked_clients st'))"
proof -
  from chargeback_Inr [OF assms(2)] obtain tx pool g r a where
    st': "st' = st\<lparr>rng := g, disputed_txs := remove1 tx pool,
                 accounts := set_account (client r)
                    (a\<lparr>held := held a - amount r, locked := True\<rparr>)
                    (accounts st),
                 deposit_records := (deposit_records st)(tx \<mapsto> r\<lparr>status := Chargeback\<rparr>)\<rparr>"
    by auto
  from unlocked_count [OF assms(1), of "client r" "a\<lparr>held := held a - amount r, locked := True\<rparr>"]
  show ?thesis by (simp add: unlocked_clients_def st')
qed

lemma handler_unlocked:
  assumes dk: "distinct (map fst (accounts st))"
    and h: "handler name st = Inr (Some row, st')"
    and nm: "name \<noteq> Deposit" "name \<noteq> Withdrawal"
    and two: "name = ChargebackRow \<longrightarrow> 2 \<le> length (unlocked_clients st)"
    and ne: "unlocked_clients st \<noteq> []"
  shows "unlocked_clients st' \<noteq> []"
proof (cases name)
  case Dispute
  with h dk have "unlocked_clients st' = unlocked_clients st"
    by (simp add: handler_def dispute_unlocked)
  with ne show ?thesis by simp
next
  case Resolve
  with h dk have "unlocked_clients st' = unlocked_clients st"
    by (simp add: handler_def resolve_unlocked)
  with ne show ?thesis by simp
next
  case ChargebackRow
  with h have c: "chargeback st = Inr (Some row, st')" by (simp add: handler_def)
  from ChargebackRow two chargeback_unlocked [OF dk c] show ?thesis by auto
qed (use nm in simp_all)

subsection \<open>One row\<close>

lemma next_row_step:
  "ledger_inv st \<Longrightarrow> next_row d st = Inr (row, st') \<Longrightarrow>
   ledger_inv st' \<and> row_step st row st' \<and> tail_of (rng st') (rng st)
   \<and> (unlocked_clients st \<noteq> [] \<longrightarrow> unlocked_clients st' \<noteq> [])"
proof (induction d arbitrary: st)
  case 0
  then show ?case by (simp add: next_row.simps)
next
  case (Suc d)
  note inv = Suc.prems(1) and nr = Suc.prems(2)
  from inv have dk: "distinct (map fst (accounts st))" by (simp add: ledger_inv_def)
  have step: "ledger_inv (st\<lparr>rng := g\<rparr>)" "distinct (map fst (accounts (st\<lparr>rng := g\<rparr>)))" for g
    using inv dk by simp_all
  from next_row_outcomes [OF inv, of d] show ?case
  proof (elim disjE bexE exE conjE)
    assume "next_row (Suc d) st = Inl RuntimeError_no_unlocked"
    with nr show ?thesis by simp
  next
    fix g c assume t: "tail_of g (rng st)" and c: "c \<in> set (unlocked_clients st)"
      and e: "next_row (Suc d) st = random_deposit c (st\<lparr>rng := g\<rparr>)"
    from e nr have r: "random_deposit c (st\<lparr>rng := g\<rparr>) = Inr (row, st')" by simp
    from c have cg: "c \<in> set (unlocked_clients (st\<lparr>rng := g\<rparr>))" by simp
    from random_deposit_tail [OF r] t have "tail_of (rng st') (rng st)"
      by (simp add: tail_of_trans)
    with random_deposit_inv [OF step(1) r] random_deposit_row [OF step(2) cg r]
      random_deposit_unlocked [OF step(2) r]
    show ?thesis by simp
  next
    fix g c assume t: "tail_of g (rng st)" and c: "c \<in> set (funded_clients st)"
      and e: "next_row (Suc d) st = random_withdrawal c (st\<lparr>rng := g\<rparr>)"
    from e nr have r: "random_withdrawal c (st\<lparr>rng := g\<rparr>) = Inr (row, st')" by simp
    from c funded_is_unlocked have cg: "c \<in> set (unlocked_clients (st\<lparr>rng := g\<rparr>))" by auto
    from random_withdrawal_tail [OF r] t have "tail_of (rng st') (rng st)"
      by (simp add: tail_of_trans)
    with random_withdrawal_inv [OF step(1) r] random_withdrawal_row [OF step(2) cg r]
      random_withdrawal_unlocked [OF step(2) r]
    show ?thesis by simp
  next
    fix g name row0 st0
    assume t: "tail_of g (rng st)"
      and h0: "handler name (st\<lparr>rng := g\<rparr>) = Inr (Some row0, st0)"
      and nm: "name \<noteq> Deposit" "name \<noteq> Withdrawal"
      and two: "name = ChargebackRow \<longrightarrow> 2 \<le> length (unlocked_clients st)"
      and e: "next_row (Suc d) st = Inr (row0, st0)"
    from e nr h0 have h: "handler name (st\<lparr>rng := g\<rparr>) = Inr (Some row, st')" by simp
    from handler_tail [OF h] t have "tail_of (rng st') (rng st)"
      by (simp add: tail_of_trans)
    moreover have "unlocked_clients st \<noteq> [] \<longrightarrow> unlocked_clients st' \<noteq> []"
      using handler_unlocked [OF step(2) h nm] two by simp
    ultimately show ?thesis
      using handler_inv [OF step(1) h] handler_row [OF h] by simp
  next
    fix g assume t: "tail_of g (rng st)"
      and e: "next_row (Suc d) st = next_row d (st\<lparr>rng := g\<rparr>)"
    from e nr have r: "next_row d (st\<lparr>rng := g\<rparr>) = Inr (row, st')" by simp
    from Suc.IH [OF step(1) r] t show ?thesis
      by (auto intro: tail_of_trans)
  qed
qed

lemma next_row_error:
  "ledger_inv st \<Longrightarrow> unlocked_clients st \<noteq> [] \<Longrightarrow> next_row d st = Inl e \<Longrightarrow>
   e = RecursionError \<and> (0 < d \<longrightarrow> \<not> accepting (rng st))"
proof (induction d arbitrary: st)
  case 0
  then show ?case by (simp add: next_row.simps)
next
  case (Suc d)
  note inv = Suc.prems(1) and ne = Suc.prems(2) and nr = Suc.prems(3)
  from inv have dk: "distinct (map fst (accounts st))" and mn: "0 < min_amount st"
    and mx: "min_amount st < max_amount st"
    by (simp_all add: ledger_inv_def)
  from next_row_outcomes [OF inv, of d] show ?case
  proof (elim disjE bexE exE conjE)
    assume "unlocked_clients st = []"
    with ne show ?thesis by simp
  next
    fix g c assume c: "c \<in> set (unlocked_clients st)"
      and r: "next_row (Suc d) st = random_deposit c (st\<lparr>rng := g\<rparr>)"
    from c have "c \<in> fst ` set (accounts st)" by (force simp: unlocked_clients_iff)
    with random_deposit_ok [of "st\<lparr>rng := g\<rparr>" c] mn mx obtain row' st'' where
      "random_deposit c (st\<lparr>rng := g\<rparr>) = Inr (row', st'')" by auto
    with r nr show ?thesis by simp
  next
    fix g c assume c: "c \<in> set (funded_clients st)"
      and r: "next_row (Suc d) st = random_withdrawal c (st\<lparr>rng := g\<rparr>)"
    with random_withdrawal_ok [of "st\<lparr>rng := g\<rparr>" c] dk mn mx obtain row' st'' where
      "random_withdrawal c (st\<lparr>rng := g\<rparr>) = Inr (row', st'')" by auto
    with r nr show ?thesis by simp
  next
    fix g name row st'
    assume "next_row (Suc d) st = Inr (row, st')"
    with nr show ?thesis by simp
  next
    fix g
    assume na: "\<not> accepting (rng st)"
      and r: "next_row (Suc d) st = next_row d (st\<lparr>rng := g\<rparr>)"
    from r nr have r': "next_row d (st\<lparr>rng := g\<rparr>) = Inl e" by simp
    from Suc.IH [OF _ _ r'] inv ne na show ?thesis by simp
  qed
qed

lemma next_row_returns:
  assumes "ledger_inv st" "unlocked_clients st \<noteq> []" "accepting (rng st)"
  shows "\<exists>row st'. next_row (Suc d) st = Inr (row, st')"
proof (cases "next_row (Suc d) st")
  case (Inl e)
  from next_row_error [OF assms(1,2) Inl] assms(3) show ?thesis by simp
next
  case (Inr p)
  then show ?thesis by (cases p) blast
qed

subsection \<open>A fresh builder\<close>

lemma shuffle_loop_perm:
  "k < length xs \<Longrightarrow>
   set (fst (shuffle_loop k xs g)) = set xs
   \<and> distinct (fst (shuffle_loop k xs g)) = distinct xs
   \<and> length (fst (shuffle_loop k xs g)) = length xs"
proof (induction k arbitrary: xs g)
  case 0
  then show ?case by simp
next
  case (Suc k)
  define j where "j = g 0 mod Suc (Suc k)"
  have "j < Suc (Suc k)" unfolding j_def by (rule mod_less_divisor) simp
  with Suc.prems have j: "j < length xs" by simp
  define ys where "ys = xs[Suc k := xs ! j, j := xs ! Suc k]"
  have ys: "set ys = set xs" "distinct ys = distinct xs" "length ys = length xs"
    using Suc.prems j by (simp_all add: ys_def)
  have "shuffle_loop (Suc k) xs g = shuffle_loop k ys (snd (draw g))"
    by (simp add: randbelow_def draw_def j_def ys_def)
  moreover have "k < length ys" using Suc.prems ys by simp
  ultimately show ?case using Suc.IH [of ys "snd (draw g)"] ys by simp
qed

lemma shuffle_perm:
  "set (fst (shuffle xs g)) = set xs \<and> distinct (fst (shuffle xs g)) = distinct xs"
proof (cases "xs = []")
  case True
  then show ?thesis by (simp add: shuffle_def)
next
  case False
  then have "length xs - 1 < length xs" by simp
  from shuffle_loop_perm [OF this] show ?thesis by (simp add: shuffle_def)
qed

lemma init_Inr:
  assumes "FeedBuilder_init seed_fn args g0 = Inr st"
  shows "0 < arg_min_amount args \<and> arg_min_amount args < arg_max_amount args
     \<and> 1 \<le> arg_clients args \<and> arg_clients args \<le> 65535
     \<and> st = \<lparr>min_amount = arg_min_amount args, max_amount = arg_max_amount args,
             tx_counter = 1,
             accounts = map (\<lambda>client_id. (client_id, new_account))
                (fst (shuffle [1 ..< nat (arg_clients args) + 1] g0)),
             deposit_records = Map.empty, posted_txs = [], disputed_txs = [],
             rng = seed_fn (arg_seed args)\<rparr>"
  using assms
  by (auto simp: FeedBuilder_init_def client_ids_def split: if_splits sum.splits prod.splits)

lemma init_inv:
  assumes "FeedBuilder_init seed_fn args g0 = Inr st"
  shows "ledger_inv st \<and> unlocked_clients st \<noteq> [] \<and> tx_counter st = 1
     \<and> deposit_records st = Map.empty \<and> rng st = seed_fn (arg_seed args)"
proof -
  note i = init_Inr [OF assms]
  define ids where "ids = fst (shuffle [1 ..< nat (arg_clients args) + 1] g0)"
  from shuffle_perm [of "[1 ..< nat (arg_clients args) + 1]" g0]
  have ids: "set ids = {1 ..< nat (arg_clients args) + 1}" "distinct ids"
    by (simp_all add: ids_def del: upt_Suc)
  from i have "1 \<in> set ids" unfolding ids(1) by auto
  then have ne: "ids \<noteq> []" by auto
  from i have acc: "accounts st = map (\<lambda>client_id. (client_id, new_account)) ids"
    and rest: "tx_counter st = 1" "deposit_records st = Map.empty" "posted_txs st = []"
      "disputed_txs st = []" "rng st = seed_fn (arg_seed args)"
      "min_amount st = arg_min_amount args" "max_amount st = arg_max_amount args"
    by (simp_all add: ids_def)
  have k: "map fst (accounts st) = ids" by (simp add: acc comp_def)
  have "records_ok st" by (simp add: records_ok_def rest)
  moreover have "pools_in_lockstep st" by (simp add: pools_in_lockstep_def rest)
  moreover have "balances_ok st"
    by (auto simp: balances_ok_def acc new_account_def disputed_total_def rest)
  moreover have "unlocked_clients st = ids"
    by (simp add: unlocked_clients_def acc new_account_def comp_def)
  ultimately show ?thesis using i ids ne k rest by (simp add: ledger_inv_def)
qed

subsection \<open>The loop of \<open>main\<close>\<close>

lemma emit_rows_Suc:
  "emit_rows limit (Suc n) st = (rs, res) \<Longrightarrow>
   (\<exists>e. next_row limit st = Inl e \<and> rs = [] \<and> res = Inl e)
   \<or> (\<exists>r st1 rs'. next_row limit st = Inr (r, st1) \<and> emit_rows limit n st1 = (rs', res)
         \<and> rs = r # rs')"
  by (auto split: sum.splits prod.splits)

lemma emit_rows_result:
  "ledger_inv st \<Longrightarrow> unlocked_clients st \<noteq> [] \<Longrightarrow> emit_rows limit n st = (rs, res) \<Longrightarrow>
   (case res of
      Inr st' \<Rightarrow> ledger_inv st' \<and> length rs = n
    | Inl e \<Rightarrow> e = RecursionError \<and> length rs < n \<and> (0 < limit \<longrightarrow> \<not> accepting (rng st)))"
proof (induction n arbitrary: st rs)
  case 0
  then show ?case by auto
next
  case (Suc n)
  from emit_rows_Suc [OF Suc.prems(3)] show ?case
  proof (elim disjE exE conjE)
    fix e assume e: "next_row limit st = Inl e" "rs = []" "res = Inl e"
    from next_row_error [OF Suc.prems(1,2) e(1)] e show ?thesis by simp
  next
    fix r st1 rs'
    assume n: "next_row limit st = Inr (r, st1)" and e: "emit_rows limit n st1 = (rs', res)"
      and rs: "rs = r # rs'"
    note s = next_row_step [OF Suc.prems(1) n]
    from s Suc.prems(2) have ne: "unlocked_clients st1 \<noteq> []" by simp
    from s have "accepting (rng st) \<Longrightarrow> accepting (rng st1)" using accepting_tail by blast
    with Suc.IH [OF _ ne e] s rs show ?thesis by (auto split: sum.splits)
  qed
qed

lemma emit_rows_locked_out:
  "ledger_inv st \<Longrightarrow> emit_rows limit n st = (rs, res) \<Longrightarrow>
   locked_out rs
   \<and> (\<forall>r \<in> set rs. \<exists>a. map_of (accounts st) (row_client r) = Some a \<and> \<not> locked a)"
proof (induction n arbitrary: st rs)
  case 0
  then show ?case by simp
next
  case (Suc n)
  from emit_rows_Suc [OF Suc.prems(2)] show ?case
  proof (elim disjE exE conjE)
    fix e assume "rs = []"
    then show ?thesis by simp
  next
    fix r st1 rs'
    assume n: "next_row limit st = Inr (r, st1)" and e: "emit_rows limit n st1 = (rs', res)"
      and rs: "rs = r # rs'"
    from next_row_step [OF Suc.prems(1) n] have inv1: "ledger_inv st1"
      and rst: "row_step st r st1" by simp_all
    note ih = Suc.IH [OF inv1 e]
    obtain k c tx amt where r: "r = (k, c, tx, amt)" by (cases r)
    from rst r have un: "\<exists>a. map_of (accounts st) c = Some a \<and> \<not> locked a"
      and keys: "map fst (accounts st1) = map fst (accounts st)"
      and mono: "\<forall>i a. map_of (accounts st) i = Some a \<and> locked a \<longrightarrow>
            (\<exists>a'. map_of (accounts st1) i = Some a' \<and> locked a')"
      and cb: "k = ChargebackRow \<longrightarrow> (\<exists>a'. map_of (accounts st1) c = Some a' \<and> locked a')"
      by (simp_all add: row_step_def)
    have bk: "\<exists>a. map_of (accounts st) i = Some a \<and> \<not> locked a"
      if "map_of (accounts st1) i = Some a1" "\<not> locked a1" for i a1
    proof -
      from that(1) have "i \<in> set (map fst (accounts st1))"
        by (metis map_of_eq_None_iff option.distinct(1) set_map)
      with keys have "i \<in> fst ` set (accounts st)" by simp
      then obtain a where a: "map_of (accounts st) i = Some a"
        by (metis map_of_eq_None_iff not_Some_eq)
      with mono that show ?thesis by (cases "locked a") auto
    qed
    have 1: "\<forall>r' \<in> set rs'. \<exists>a. map_of (accounts st) (row_client r') = Some a \<and> \<not> locked a"
      using ih bk by blast
    have 2: "k = ChargebackRow \<longrightarrow> (\<forall>r' \<in> set rs'. row_client r' \<noteq> c)"
      using ih cb by fastforce
    from ih 1 2 un show ?thesis
      by (simp add: rs r row_kind_def row_client_def)
  qed
qed

lemma emit_rows_txs:
  "ledger_inv st \<Longrightarrow> emit_rows limit n st = (rs, res) \<Longrightarrow>
   map row_tx (filter money rs) = [tx_counter st ..< tx_counter st + length (filter money rs)]"
proof (induction n arbitrary: st rs)
  case 0
  then show ?case by simp
next
  case (Suc n)
  from emit_rows_Suc [OF Suc.prems(2)] show ?case
  proof (elim disjE exE conjE)
    fix e assume "rs = []"
    then show ?thesis by simp
  next
    fix r st1 rs'
    assume n: "next_row limit st = Inr (r, st1)" and e: "emit_rows limit n st1 = (rs', res)"
      and rs: "rs = r # rs'"
    from next_row_step [OF Suc.prems(1) n] have inv1: "ledger_inv st1"
      and rst: "row_step st r st1" by simp_all
    note ih = Suc.IH [OF inv1 e]
    obtain k c tx amt where r: "r = (k, c, tx, amt)" by (cases r)
    show ?thesis
    proof (cases "money r")
      case True
      with rst r have "tx = tx_counter st" "tx_counter st1 = Suc (tx_counter st)"
        by (simp_all add: row_step_def money_def row_kind_def)
      moreover have "[tx_counter st ..< tx_counter st + Suc m]
          = tx_counter st # [Suc (tx_counter st) ..< Suc (tx_counter st) + m]" for m
        by (simp add: upt_conv_Cons del: upt_Suc)
      ultimately show ?thesis using ih True
        by (simp add: rs r row_tx_def del: upt_Suc)
    next
      case False
      with rst r have "tx_counter st1 = tx_counter st"
        by (simp add: row_step_def money_def row_kind_def)
      with ih False show ?thesis by (simp add: rs)
    qed
  qed
qed

lemma emit_rows_refs:
  "ledger_inv st \<Longrightarrow> emit_rows limit n st = (rs, res) \<Longrightarrow>
   (\<forall>t r. deposit_records st t = Some r \<longrightarrow>
      (\<exists>d \<in> set seen. row_kind d = Deposit \<and> row_tx d = t \<and> row_client d = client r)) \<Longrightarrow>
   refs_ok seen rs"
proof (induction n arbitrary: st rs seen)
  case 0
  then show ?case by simp
next
  case (Suc n)
  from emit_rows_Suc [OF Suc.prems(2)] show ?case
  proof (elim disjE exE conjE)
    fix e assume "rs = []"
    then show ?thesis by simp
  next
    fix r st1 rs'
    assume n: "next_row limit st = Inr (r, st1)" and e: "emit_rows limit n st1 = (rs', res)"
      and rs: "rs = r # rs'"
    from next_row_step [OF Suc.prems(1) n] have inv1: "ledger_inv st1"
      and rst: "row_step st r st1" by simp_all
    obtain k c tx amt where r: "r = (k, c, tx, amt)" by (cases r)
    from rst r have ref: "\<not> (k = Deposit \<or> k = Withdrawal) \<longrightarrow>
        (\<exists>rec. deposit_records st tx = Some rec \<and> client rec = c)"
      and new: "\<forall>t r'. deposit_records st1 t = Some r' \<longrightarrow>
            (\<exists>r. deposit_records st t = Some r \<and> client r = client r')
            \<or> (k = Deposit \<and> t = tx \<and> client r' = c)"
      by (simp_all add: row_step_def)
    have seen': "\<forall>t r'. deposit_records st1 t = Some r' \<longrightarrow>
        (\<exists>d \<in> set (seen @ [r]). row_kind d = Deposit \<and> row_tx d = t \<and> row_client d = client r')"
    proof (intro allI impI)
      fix t r' assume "deposit_records st1 t = Some r'"
      with new have "(\<exists>r. deposit_records st t = Some r \<and> client r = client r')
            \<or> (k = Deposit \<and> t = tx \<and> client r' = c)" by blast
      then show "\<exists>d \<in> set (seen @ [r]). row_kind d = Deposit \<and> row_tx d = t
          \<and> row_client d = client r'"
      proof
        assume "\<exists>r. deposit_records st t = Some r \<and> client r = client r'"
        with Suc.prems(3) show ?thesis by fastforce
      next
        assume "k = Deposit \<and> t = tx \<and> client r' = c"
        then show ?thesis by (simp add: r row_kind_def row_tx_def row_client_def)
      qed
    qed
    have here: "money r \<or> (\<exists>d \<in> set seen. row_kind d = Deposit \<and> row_tx d = row_tx r
        \<and> row_client d = row_client r)"
    proof (cases "money r")
      case True
      then show ?thesis by simp
    next
      case False
      with ref r obtain rec where "deposit_records st tx = Some rec" "client rec = c"
        by (auto simp: money_def row_kind_def)
      with Suc.prems(3) show ?thesis by (fastforce simp: r row_tx_def row_client_def)
    qed
    from Suc.IH [OF inv1 e seen'] here show ?thesis by (simp add: rs)
  qed
qed

section \<open>Concrete runs\<close>

lemmas eval_defs = run_def FeedBuilder_init_def client_ids_def shuffle_def randbelow_def
  next_row.simps valid_actions_def unlocked_clients_def funded_clients_def new_account_def
  has_posted_for_unlocked_def has_disputed_for_unlocked_def action_weights_def action_order_def
  choices_def random_unit_def choose_client_def choice_def random_deposit_def
  decimal_from_range_def quantize_def round_half_even_def round_half_up_def int_of_decimal_def
  BPS_def randint_def format_amount_def digits.simps Let_def ledger_of_def set_account_def
  fallback_deposit_def random_withdrawal_def handler_def dispute_def resolve_def chargeback_def
  choose_tx.simps tx_eligible_def list_remove_def



lemma resolve_run:
  "\<exists>st. snd (run seed_resolve (Suc 0) args_one_client (tape_of []) (Suc (Suc (Suc 0)))) = Inr st
     \<and> posted_txs st = [] \<and> disputed_txs st = []
     \<and> map_option status (deposit_records st 1) = Some Resolved"
  by (simp add: eval_defs args_one_client_def seed_resolve_def split del: if_split
      cong: if_weak_cong sum.case_cong_weak prod.case_cong_weak option.case_cong_weak)

lemma chargeback_rows:
  "fst (run seed_chargeback (Suc 0) args_two_clients (tape_of []) (Suc (Suc (Suc (Suc 0)))))
     = [(Deposit, 2, 1, ''5.0000''), (Dispute, 2, 1, []), (ChargebackRow, 2, 1, []),
        (Deposit, 1, 2, ''1.0000'')]"
  by (simp add: eval_defs upt_rec args_two_clients_def seed_chargeback_def split del: if_split
      cong: if_weak_cong sum.case_cong_weak prod.case_cong_weak option.case_cong_weak)

lemma small_withdrawal_rows:
  "fst (run seed_small_withdrawal (Suc 0) args_fine_min (tape_of []) (Suc (Suc 0)))
     = [(Deposit, 1, 1, ''4.0000''), (Withdrawal, 1, 2, ''0.0000'')]"
  by (simp add: eval_defs args_fine_min_def seed_small_withdrawal_def split del: if_split
      cong: if_weak_cong sum.case_cong_weak prod.case_cong_weak option.case_cong_weak)

lemma small_withdrawal_ledger:
  "ledger_of (run seed_small_withdrawal (Suc 0) args_fine_min (tape_of []) (Suc (Suc 0)))
     = [(1, 4, 0, False)]"
  by (simp add: eval_defs args_fine_min_def seed_small_withdrawal_def split del: if_split
      cong: if_weak_cong sum.case_cong_weak prod.case_cong_weak option.case_cong_weak)

subsection \<open>Runs\<close>

lemma run_inv:
  assumes "run seed_fn limit args g0 n = (rs, Inr st)"
  shows "ledger_inv st"
proof -
  from assms obtain b where i: "FeedBuilder_init seed_fn args g0 = Inr b"
    and e: "emit_rows limit n b = (rs, Inr st)"
    by (auto simp: run_def split: sum.splits)
  from init_inv [OF i] emit_rows_result [OF _ _ e] show ?thesis by simp
qed

section \<open>C8: the amount sampler\<close>




section \<open>C2: balances along a feed\<close>




section \<open>C9: pools and record status\<close>

text \<open>
  C9: at every point of a run (after any number of rows), no transaction id is in both
  pools (nor twice in one), every id of the posted pool has a record of status posted,
  every id of the disputed pool has a record of status disputed, and the id of a record
  of status resolved or chargeback is in neither pool.
\<close>

theorem pools_follow_status:
  assumes "run seed_fn limit args g0 n = (rs, Inr st)"
  shows "pools_in_lockstep st
     \<and> (\<forall>tx r. deposit_records st tx = Some r \<and> (status r = Resolved \<or> status r = Chargeback)
           \<longrightarrow> tx \<notin> set (posted_txs st) \<and> tx \<notin> set (disputed_txs st))"
proof -
  from run_inv [OF assms] have p: "pools_in_lockstep st" by (simp add: ledger_inv_def)
  then show ?thesis by (auto simp: pools_in_lockstep_def)
qed

text \<open>A run of three rows: deposit, dispute, resolve.\<close>

theorem pools_follow_status_witness:
  "\<exists>rs st. run seed_resolve (Suc 0) args_one_client (tape_of []) (Suc (Suc (Suc 0)))
       = (rs, Inr st)
     \<and> map_option status (deposit_records st 1) = Some Resolved
     \<and> 1 \<notin> set (posted_txs st) \<and> 1 \<notin> set (disputed_txs st)"
proof -
  from resolve_run obtain st where
    s: "snd (run seed_resolve (Suc 0) args_one_client (tape_of []) (Suc (Suc (Suc 0)))) = Inr st"
    and r: "map_option status (deposit_records st 1) = Some Resolved"
    by blast
  from s have e: "run seed_resolve (Suc 0) args_one_client (tape_of []) (Suc (Suc (Suc 0)))
      = (fst (run seed_resolve (Suc 0) args_one_client (tape_of []) (Suc (Suc (Suc 0)))), Inr st)"
    by (metis prod.collapse)
  from r obtain rec where rec: "deposit_records st 1 = Some rec" "status rec = Resolved"
    by auto
  with pools_follow_status [OF e] have "1 \<notin> set (posted_txs st) \<and> 1 \<notin> set (disputed_txs st)"
    by blast
  with e r show ?thesis by blast
qed

section \<open>C3: nothing after a chargeback\<close>

text \<open>
  C3: in every generated feed, once a chargeback row names a client, no later row names
  that client as a deposit, withdrawal, dispute or resolve.
\<close>

theorem locked_client_is_silent:
  "locked_out (fst (run seed_fn limit args g0 n))"
proof (cases "FeedBuilder_init seed_fn args g0")
  case (Inl e)
  then show ?thesis by (simp add: run_def)
next
  case (Inr b)
  obtain rs res where e: "emit_rows limit n b = (rs, res)" by (cases "emit_rows limit n b")
  from init_inv [OF Inr] emit_rows_locked_out [OF _ e] have "locked_out rs" by simp
  with Inr e show ?thesis by (simp add: run_def)
qed

text \<open>A feed in which a chargeback is followed by another row.\<close>

theorem locked_client_is_silent_witness:
  "fst (run seed_chargeback (Suc 0) args_two_clients (tape_of []) (Suc (Suc (Suc (Suc 0)))))
     = [(Deposit, 2, 1, ''5.0000''), (Dispute, 2, 1, []), (ChargebackRow, 2, 1, []),
        (Deposit, 1, 2, ''1.0000'')]
   \<and> row_client (Deposit, 1, 2, ''1.0000'') \<noteq> row_client (ChargebackRow, 2, 1, [])"
  using locked_client_is_silent [of seed_chargeback "Suc 0" args_two_clients "tape_of []"
      "Suc (Suc (Suc (Suc 0)))"] chargeback_rows
  by (simp add: row_kind_def)

section \<open>C4: transaction ids\<close>

text \<open>
  C4: in every generated feed the deposit and withdrawal rows carry, in emission order,
  the ids \<open>1, 2, 3, \<dots>\<close> of one counter (so they are unique and strictly increasing), and
  every dispute, resolve and chargeback row carries the id and the client of a deposit
  row emitted before it.
\<close>

theorem tx_ids_of_feed:
  "map row_tx (filter money (fst (run seed_fn limit args g0 n)))
     = [1 ..< Suc (length (filter money (fst (run seed_fn limit args g0 n))))]
   \<and> distinct (map row_tx (filter money (fst (run seed_fn limit args g0 n))))
   \<and> sorted_wrt (<) (map row_tx (filter money (fst (run seed_fn limit args g0 n))))
   \<and> refs_ok [] (fst (run seed_fn limit args g0 n))"
proof (cases "FeedBuilder_init seed_fn args g0")
  case (Inl e)
  then show ?thesis by (simp add: run_def)
next
  case (Inr b)
  obtain rs res where e: "emit_rows limit n b = (rs, res)" by (cases "emit_rows limit n b")
  note i = init_inv [OF Inr]
  from i emit_rows_txs [OF _ e]
  have t: "map row_tx (filter money rs) = [1 ..< Suc (length (filter money rs))]" by simp
  have "distinct [1 ..< Suc (length (filter money rs))]"
    and "sorted_wrt (<) [1 ..< Suc (length (filter money rs))]"
    by (simp_all del: upt_Suc)
  with t have d: "distinct (map row_tx (filter money rs))"
    "sorted_wrt (<) (map row_tx (filter money rs))" by simp_all
  from i have "refs_ok [] rs" by (intro emit_rows_refs [OF _ e]) simp_all
  with t d Inr e show ?thesis by (simp add: run_def)
qed

text \<open>A feed with two deposits, a dispute and a chargeback.\<close>

theorem tx_ids_of_feed_witness:
  "fst (run seed_chargeback (Suc 0) args_two_clients (tape_of []) (Suc (Suc (Suc (Suc 0)))))
     = [(Deposit, 2, 1, ''5.0000''), (Dispute, 2, 1, []), (ChargebackRow, 2, 1, []),
        (Deposit, 1, 2, ''1.0000'')]
   \<and> map row_tx (filter money
      (fst (run seed_chargeback (Suc 0) args_two_clients (tape_of [])
             (Suc (Suc (Suc (Suc 0))))))) = [1, 2]"
  using tx_ids_of_feed [of seed_chargeback "Suc 0" args_two_clients "tape_of []"
      "Suc (Suc (Suc (Suc 0)))"] chargeback_rows
  by (simp add: money_def row_kind_def)

end
